theory Spec2Isabelle
  imports Main "HOL-Library.Word" "HOL-Library.Sublist"
begin

unbundle bit_operations_syntax

section \<open>The real-time poll multiplexer of module-appsurfer.c\<close>

text \<open>
  The second half of the source file is the poll multiplexer \<^verbatim>\<open>pa_rtpoll\<close>. This theory
  embeds its data model and its functions and proves properties of them.

  Conventions of the embedding:
  \<^item> A \<^verbatim>\<open>pa_rtpoll_item *\<close> is the item's identity, a natural number \<open>iid\<close>; the intrusive
    list \<^verbatim>\<open>p->items\<close> is the list of item records, head first. \<^verbatim>\<open>PA_LLIST_PREPEND\<close> is
    \<open>#\<close>, \<^verbatim>\<open>PA_LLIST_REMOVE\<close> removes the record with that identity.
  \<^item> \<^verbatim>\<open>unsigned\<close> counters are 32-bit words.
  \<^item> A \<^verbatim>\<open>struct pollfd *\<close> held by an item is an offset into the active buffer
    \<^verbatim>\<open>p->pollfd\<close> (\<open>None\<close> is \<^verbatim>\<open>NULL\<close>).
  \<^item> A failed \<^verbatim>\<open>pa_assert\<close> and an access through a dangling or out-of-range pointer are
    values of the type \<open>fault\<close>; every function that can reach one returns \<open>fault + _\<close>.
  \<^item> The ghost field \<open>log\<close> records what the multiplexer does towards the outside: a
    before-hook has returned (\<open>EvBefore\<close>, with the value), an after-hook is entered
    (\<open>EvAfter\<close>, with the slots it finds), the wait call is issued, an item record is
    released (\<open>EvReclaim\<close>); and the calls to \<^verbatim>\<open>pa_rtpoll_item_free\<close> and
    \<^verbatim>\<open>pa_rtpoll_item_set_after_callback\<close>.
\<close>

subsection \<open>Data model\<close>

datatype fault = AssertFailed | MemFault

record pollfd =
  fd :: int
  events :: "16 word"
  revents :: "16 word"

text \<open>
  Modelled from the spec: \<^verbatim>\<open>POLLIN\<close> comes from \<^verbatim>\<open>poll.h\<close>, which is not part of the source; the
  spec calls it the "readable" condition. It is one bit of the event mask (bit 0 on Linux).
\<close>

definition POLLIN :: "16 word" where
  "POLLIN = 1"

definition zero_pollfd :: pollfd where
  "zero_pollfd = \<lparr>fd = 0, events = 0, revents = 0\<rparr>"

text \<open>
  Hook bodies are not part of the source file: \<^verbatim>\<open>before_cb\<close> and \<^verbatim>\<open>after_cb\<close> are function
  pointers supplied by the callers. The four adapter hooks of the file are constructors of
  their own. Any other hook is a script: the calls the hook makes on the multiplexer, in
  order, and for a before-hook the value it returns. The calls are those of the item
  interface: create an item, free an item, set a hook or the user data of an item, and get
  the slots of an item (which rebuilds a stale layout). A hook that installs another hook
  carries that hook's script inside its own, so every script is finite. The timer setters
  are called from outside a cycle.
\<close>

datatype bcb =
    FdsemBefore | AsyncmsgqBefore
  | BScript "action list" int
and acb =
    FdsemAfter | AsyncmsgqAfter
  | AScript "action list"
and action =
    ANew "32 word"
  | AFree nat
  | ASetBefore nat "bcb option"
  | ASetAfter nat "acb option"
  | ASetUserdata nat "nat option"
  | AGetPollfd nat

record item =
  iid :: nat
  dead :: bool
  pollfd_ptr :: "nat option"
  n_pollfd :: "32 word"
  before_cb :: "bcb option"
  after_cb :: "acb option"
  userdata :: "nat option"

datatype event =
    EvBefore nat int
  | EvAfter nat "pollfd list"
  | EvWait "pollfd list" "int option"
  | EvFdsemAfterPoll "nat option"
  | EvAsyncmsgqAfterPoll "nat option"
  | EvFreeCall nat
  | EvSetAfterCall nat
  | EvReclaim nat

record rtpoll =
  pollfd :: "pollfd list"
  pollfd2 :: "pollfd list"
  n_pollfd_alloc :: "32 word"
  n_pollfd_used :: "32 word"
  timer_enabled :: bool
  next_elapse :: nat
  period :: nat
  scan_for_dead :: bool
  running :: bool
  installed :: bool
  rebuild_needed :: bool
  dont_use_ppoll :: bool
  items :: "item list"
  errno :: int
  next_id :: nat
  heap_junk :: pollfd
  log :: "event list"

text \<open>
  \<open>next_elapse\<close> and \<open>period\<close> are in microseconds (the unit of \<^verbatim>\<open>pa_usec_t\<close>).
  \<open>errno\<close> is the thread's error variable. \<open>next_id\<close> is the identity the next allocated
  item record gets, \<open>heap_junk\<close> the content of storage that \<^verbatim>\<open>pa_xnew\<close> and
  \<^verbatim>\<open>pa_xrealloc\<close> hand out without initialising it.
\<close>

subsection \<open>Creation of the poll set\<close>

definition pa_rtpoll_new :: "pollfd \<Rightarrow> bool \<Rightarrow> rtpoll" where
  "pa_rtpoll_new junk old_kernel =
     \<lparr>pollfd = replicate 32 junk, pollfd2 = replicate 32 junk,
      n_pollfd_alloc = 32, n_pollfd_used = 0,
      timer_enabled = False, next_elapse = 0, period = 0,
      scan_for_dead = False, running = False, installed = False, rebuild_needed = False,
      dont_use_ppoll = old_kernel,
      items = [], errno = 0, next_id = 0, heap_junk = junk, log = []\<rparr>"

definition pa_rtpoll_install :: "rtpoll \<Rightarrow> fault + rtpoll" where
  "pa_rtpoll_install p =
     (if installed p then Inl AssertFailed else Inr (p\<lparr>installed := True\<rparr>))"

subsection \<open>Item list helpers\<close>

definition find_item :: "nat \<Rightarrow> rtpoll \<Rightarrow> item option" where
  "find_item x p = find (\<lambda>i. iid i = x) (items p)"

text \<open>
  Modelled from the spec: \<^verbatim>\<open>PA_LLIST_PREPEND\<close> and \<^verbatim>\<open>PA_LLIST_REMOVE\<close> are macros of
  \<^verbatim>\<open>pulsecore/llist.h\<close>, and \<^verbatim>\<open>pa_flist_pop\<close> and \<^verbatim>\<open>pa_flist_push\<close> are functions of
  \<^verbatim>\<open>pulsecore/flist.h\<close>; neither header is part of the source. The spec speaks of linking an
  item into the list, of unlinking it, and of a pool that recycles item records. Linking is
  \<open>#\<close>, unlinking is \<open>remove_first\<close>, and a record taken from the pool or allocated afresh is a
  record with a new identity, all of whose fields \<^verbatim>\<open>pa_rtpoll_item_new\<close> overwrites.

  A write through an item pointer changes the one record the pointer finds.
\<close>

fun update_first :: "nat \<Rightarrow> (item \<Rightarrow> item) \<Rightarrow> item list \<Rightarrow> item list" where
  "update_first x f [] = []"
| "update_first x f (i # is) = (if iid i = x then f i # is else i # update_first x f is)"

fun remove_first :: "nat \<Rightarrow> item list \<Rightarrow> item list" where
  "remove_first x [] = []"
| "remove_first x (i # is) = (if iid i = x then is else i # remove_first x is)"

definition update_item :: "nat \<Rightarrow> (item \<Rightarrow> item) \<Rightarrow> rtpoll \<Rightarrow> rtpoll" where
  "update_item x f p = p\<lparr>items := update_first x f (items p)\<rparr>"

definition ids :: "rtpoll \<Rightarrow> nat list" where
  "ids p = map iid (items p)"

subsection \<open>rtpoll_rebuild\<close>

definition xrealloc :: "pollfd \<Rightarrow> pollfd list \<Rightarrow> nat \<Rightarrow> pollfd list" where
  "xrealloc junk buf n = take n buf @ replicate (n - length buf) junk"

text \<open>
  The loop of \<^verbatim>\<open>rtpoll_rebuild\<close>: \<open>act\<close> is the active buffer the items still point into,
  \<open>e\<close> the write position in the scratch buffer \<open>scr\<close>. It returns the re-pointed items, the
  final position and the filled scratch buffer.
\<close>

fun rebuild_loop ::
  "pollfd list \<Rightarrow> item list \<Rightarrow> nat \<Rightarrow> pollfd list \<Rightarrow> fault + (item list \<times> nat \<times> pollfd list)" where
  "rebuild_loop act [] e scr = Inr ([], e, scr)"
| "rebuild_loop act (i # is) e scr =
     (let l = unat (n_pollfd i) in
      if 0 < l then
        (if length scr < e + l then Inl MemFault
         else
           (case (case pollfd_ptr i of
                    Some off \<Rightarrow>
                      (if length act < off + l then Inl MemFault
                       else Inr (take l (drop off act)))
                  | None \<Rightarrow> Inr (replicate l zero_pollfd)) of
              Inl f \<Rightarrow> Inl f
            | Inr src \<Rightarrow>
                (case rebuild_loop act is (e + l) (take e scr @ src @ drop (e + l) scr) of
                   Inl f \<Rightarrow> Inl f
                 | Inr (is', e', scr') \<Rightarrow> Inr (i\<lparr>pollfd_ptr := Some e\<rparr> # is', e', scr'))))
      else
        (case rebuild_loop act is (e + l) scr of
           Inl f \<Rightarrow> Inl f
         | Inr (is', e', scr') \<Rightarrow> Inr (i\<lparr>pollfd_ptr := None\<rparr> # is', e', scr')))"

definition rtpoll_rebuild :: "rtpoll \<Rightarrow> fault + rtpoll" where
  "rtpoll_rebuild p =
     (let p1 = p\<lparr>rebuild_needed := False\<rparr>;
          ra = (n_pollfd_alloc p1 < n_pollfd_used p1);
          p2 = (if ra
                then p1\<lparr>n_pollfd_alloc := n_pollfd_used p1 * 2,
                        pollfd2 := xrealloc (heap_junk p1) (pollfd2 p1) (unat (n_pollfd_used p1 * 2))\<rparr>
                else p1)
      in case rebuild_loop (pollfd p2) (items p2) 0 (pollfd2 p2) of
           Inl f \<Rightarrow> Inl f
         | Inr (is', e, scr) \<Rightarrow>
             (if (word_of_nat e :: 32 word) \<noteq> n_pollfd_used p2 then Inl AssertFailed
              else
                (let p3 = p2\<lparr>items := is', pollfd := scr, pollfd2 := pollfd p2\<rparr>
                 in Inr (if ra
                         then p3\<lparr>pollfd2 := xrealloc (heap_junk p3) (pollfd2 p3) (unat (n_pollfd_alloc p3))\<rparr>
                         else p3))))"

subsection \<open>Item life cycle\<close>

definition rtpoll_item_destroy :: "nat \<Rightarrow> rtpoll \<Rightarrow> fault + rtpoll" where
  "rtpoll_item_destroy x p =
     (case find_item x p of
        None \<Rightarrow> Inl MemFault
      | Some i \<Rightarrow>
          Inr (p\<lparr>items := remove_first x (items p),
                 n_pollfd_used := n_pollfd_used p - n_pollfd i,
                 log := log p @ [EvReclaim x],
                 rebuild_needed := True\<rparr>))"

definition pa_rtpoll_item_new :: "rtpoll \<Rightarrow> 32 word \<Rightarrow> fault + (nat \<times> rtpoll)" where
  "pa_rtpoll_item_new p n_fds =
     (if n_fds = 0 then Inl AssertFailed
      else
        (let i = \<lparr>iid = next_id p, dead = False, pollfd_ptr = None, n_pollfd = n_fds,
                  before_cb = None, after_cb = None, userdata = None\<rparr>
         in Inr (next_id p,
                 p\<lparr>items := i # items p,
                   rebuild_needed := True,
                   n_pollfd_used := n_pollfd_used p + n_fds,
                   next_id := Suc (next_id p)\<rparr>)))"

definition pa_rtpoll_item_free :: "nat \<Rightarrow> rtpoll \<Rightarrow> fault + rtpoll" where
  "pa_rtpoll_item_free x p =
     (case find_item x p of
        None \<Rightarrow> Inl MemFault
      | Some i \<Rightarrow>
          (if running p
           then Inr ((update_item x (\<lambda>j. j\<lparr>dead := True\<rparr>) p)
                       \<lparr>scan_for_dead := True, log := log p @ [EvFreeCall x]\<rparr>)
           else rtpoll_item_destroy x (p\<lparr>log := log p @ [EvFreeCall x]\<rparr>)))"

definition pa_rtpoll_item_get_pollfd :: "nat \<Rightarrow> rtpoll \<Rightarrow> fault + ((nat option \<times> 32 word) \<times> rtpoll)" where
  "pa_rtpoll_item_get_pollfd x p =
     (case (if rebuild_needed p then rtpoll_rebuild p else Inr p) of
        Inl f \<Rightarrow> Inl f
      | Inr p' \<Rightarrow>
          (case find_item x p' of
             None \<Rightarrow> Inl MemFault
           | Some i \<Rightarrow> Inr ((pollfd_ptr i, n_pollfd i), p')))"

definition pa_rtpoll_item_set_before_callback :: "nat \<Rightarrow> bcb option \<Rightarrow> rtpoll \<Rightarrow> fault + rtpoll" where
  "pa_rtpoll_item_set_before_callback x c p =
     (case find_item x p of
        None \<Rightarrow> Inl MemFault
      | Some i \<Rightarrow> Inr (update_item x (\<lambda>j. j\<lparr>before_cb := c\<rparr>) p))"

definition pa_rtpoll_item_set_after_callback :: "nat \<Rightarrow> acb option \<Rightarrow> rtpoll \<Rightarrow> fault + rtpoll" where
  "pa_rtpoll_item_set_after_callback x c p =
     (case find_item x p of
        None \<Rightarrow> Inl MemFault
      | Some i \<Rightarrow>
          Inr ((update_item x (\<lambda>j. j\<lparr>after_cb := c\<rparr>) p)\<lparr>log := log p @ [EvSetAfterCall x]\<rparr>))"

definition pa_rtpoll_item_set_userdata :: "nat \<Rightarrow> nat option \<Rightarrow> rtpoll \<Rightarrow> fault + rtpoll" where
  "pa_rtpoll_item_set_userdata x u p =
     (case find_item x p of
        None \<Rightarrow> Inl MemFault
      | Some i \<Rightarrow> Inr (update_item x (\<lambda>j. j\<lparr>userdata := u\<rparr>) p))"

definition pa_rtpoll_item_get_userdata :: "nat \<Rightarrow> rtpoll \<Rightarrow> fault + nat option" where
  "pa_rtpoll_item_get_userdata x p =
     (case find_item x p of
        None \<Rightarrow> Inl MemFault
      | Some i \<Rightarrow> Inr (userdata i))"

subsection \<open>Time and the timer\<close>

text \<open>
  Modelled from the spec: \<^verbatim>\<open>pa_timespec_cmp\<close>, \<^verbatim>\<open>pa_timespec_diff\<close>, \<^verbatim>\<open>pa_timespec_add\<close>
  and \<^verbatim>\<open>pa_rtclock_get\<close> are declared in \<^verbatim>\<open>pulsecore/rtclock.h\<close>, which is not part of the
  source. The spec speaks of a deadline, the current monotonic time, their comparison and
  their difference, and of advancing a deadline by a number of microseconds. A point in time
  is a number of microseconds; the reading of the clock is an argument of the function that
  reads it.
\<close>

definition pa_timespec_cmp :: "nat \<Rightarrow> nat \<Rightarrow> int" where
  "pa_timespec_cmp a b = (if a < b then - 1 else if a = b then 0 else 1)"

definition pa_timespec_diff :: "nat \<Rightarrow> nat \<Rightarrow> nat" where
  "pa_timespec_diff a b = (if a < b then b - a else a - b)"

definition pa_timespec_add :: "nat \<Rightarrow> nat \<Rightarrow> nat" where
  "pa_timespec_add ts v = ts + v"

text \<open>
  \<^verbatim>\<open>update_timer\<close> arms the operating system's interval timer and changes no field that the
  cycle reads; it is left out of the setters below.
\<close>

definition pa_rtpoll_set_timer_absolute :: "nat \<Rightarrow> rtpoll \<Rightarrow> rtpoll" where
  "pa_rtpoll_set_timer_absolute ts p = p\<lparr>next_elapse := ts, period := 0, timer_enabled := True\<rparr>"

definition pa_rtpoll_set_timer_periodic :: "nat \<Rightarrow> nat \<Rightarrow> rtpoll \<Rightarrow> rtpoll" where
  "pa_rtpoll_set_timer_periodic now usec p =
     p\<lparr>period := usec, next_elapse := pa_timespec_add now usec, timer_enabled := True\<rparr>"

definition pa_rtpoll_set_timer_relative :: "nat \<Rightarrow> nat \<Rightarrow> rtpoll \<Rightarrow> rtpoll" where
  "pa_rtpoll_set_timer_relative now usec p =
     p\<lparr>period := 0, next_elapse := pa_timespec_add now usec, timer_enabled := True\<rparr>"

definition pa_rtpoll_set_timer_disabled :: "rtpoll \<Rightarrow> rtpoll" where
  "pa_rtpoll_set_timer_disabled p = p\<lparr>period := 0, next_elapse := 0, timer_enabled := False\<rparr>"

text \<open>Lines 495 to 508 of \<^verbatim>\<open>pa_rtpoll_run\<close>: the timer after the wait call has returned.\<close>

definition timer_after_wait :: "nat \<Rightarrow> rtpoll \<Rightarrow> rtpoll" where
  "timer_after_wait now p =
     (if timer_enabled p then
        (if 0 < period p then
           (let ne = pa_timespec_add (next_elapse p) (period p)
            in p\<lparr>next_elapse :=
                   (if pa_timespec_cmp ne now < 0
                    then pa_timespec_add ne ((pa_timespec_diff now ne div period p + 1) * period p)
                    else ne)\<rparr>)
         else p\<lparr>timer_enabled := False\<rparr>)
      else p)"

subsection \<open>The external primitives and the adapters\<close>

text \<open>
  The semaphore and the message queue are outside the source. What the adapters call on
  them is the record \<open>ext\<close>: the descriptor of a handle and the result of its
  prepare-to-block operation. The consume-after-wake operations return nothing and are
  recorded in the log.
\<close>

record ext =
  pa_fdsem_get :: "nat \<Rightarrow> int"
  pa_fdsem_before_poll :: "nat option \<Rightarrow> int"
  pa_asyncmsgq_get_fd :: "nat \<Rightarrow> int"
  pa_asyncmsgq_before_poll :: "nat option \<Rightarrow> int"

definition slice_of :: "item \<Rightarrow> rtpoll \<Rightarrow> pollfd list" where
  "slice_of i p =
     (case pollfd_ptr i of None \<Rightarrow> [] | Some off \<Rightarrow> take (unat (n_pollfd i)) (drop off (pollfd p)))"

definition fdsem_before :: "ext \<Rightarrow> item \<Rightarrow> int" where
  "fdsem_before e i = pa_fdsem_before_poll e (userdata i)"

definition asyncmsgq_before :: "ext \<Rightarrow> item \<Rightarrow> int" where
  "asyncmsgq_before e i = pa_asyncmsgq_before_poll e (userdata i)"

text \<open>The assertion of both after-hooks: \<^verbatim>\<open>(i->pollfd[0].revents & ~POLLIN) == 0\<close>.\<close>

definition only_pollin :: "item \<Rightarrow> rtpoll \<Rightarrow> fault + unit" where
  "only_pollin i p =
     (case pollfd_ptr i of
        None \<Rightarrow> Inl MemFault
      | Some off \<Rightarrow>
          (if length (pollfd p) \<le> off then Inl MemFault
           else if revents (pollfd p ! off) AND NOT POLLIN = 0 then Inr ()
           else Inl AssertFailed))"

definition fdsem_after :: "item \<Rightarrow> rtpoll \<Rightarrow> fault + rtpoll" where
  "fdsem_after i p =
     (case only_pollin i p of
        Inl f \<Rightarrow> Inl f
      | Inr _ \<Rightarrow> Inr (p\<lparr>log := log p @ [EvFdsemAfterPoll (userdata i)]\<rparr>))"

definition asyncmsgq_after :: "item \<Rightarrow> rtpoll \<Rightarrow> fault + rtpoll" where
  "asyncmsgq_after i p =
     (case only_pollin i p of
        Inl f \<Rightarrow> Inl f
      | Inr _ \<Rightarrow> Inr (p\<lparr>log := log p @ [EvAsyncmsgqAfterPoll (userdata i)]\<rparr>))"

text \<open>
  The two adapter constructors write \<^verbatim>\<open>fd\<close> and \<^verbatim>\<open>events\<close> through the pointer that
  \<^verbatim>\<open>pa_rtpoll_item_get_pollfd\<close> returned and then set the three fields of the item.
\<close>

definition adapter_item ::
  "rtpoll \<Rightarrow> int \<Rightarrow> bcb \<Rightarrow> acb \<Rightarrow> nat \<Rightarrow> fault + (nat \<times> rtpoll)" where
  "adapter_item p d b a h =
     (case pa_rtpoll_item_new p 1 of
        Inl f \<Rightarrow> Inl f
      | Inr (x, p1) \<Rightarrow>
          (case pa_rtpoll_item_get_pollfd x p1 of
             Inl f \<Rightarrow> Inl f
           | Inr ((ptr, n), p2) \<Rightarrow>
               (case ptr of
                  None \<Rightarrow> Inl MemFault
                | Some off \<Rightarrow>
                    (if length (pollfd p2) \<le> off then Inl MemFault
                     else
                       Inr (x,
                         update_item x
                           (\<lambda>j. j\<lparr>before_cb := Some b, after_cb := Some a, userdata := Some h\<rparr>)
                           (p2\<lparr>pollfd := (pollfd p2)[off := (pollfd p2 ! off)\<lparr>fd := d, events := POLLIN\<rparr>]\<rparr>))))))"

definition pa_rtpoll_item_new_fdsem :: "ext \<Rightarrow> rtpoll \<Rightarrow> nat \<Rightarrow> fault + (nat \<times> rtpoll)" where
  "pa_rtpoll_item_new_fdsem e p f = adapter_item p (pa_fdsem_get e f) FdsemBefore FdsemAfter f"

definition pa_rtpoll_item_new_asyncmsgq :: "ext \<Rightarrow> rtpoll \<Rightarrow> nat \<Rightarrow> fault + (nat \<times> rtpoll)" where
  "pa_rtpoll_item_new_asyncmsgq e p q =
     adapter_item p (pa_asyncmsgq_get_fd e q) AsyncmsgqBefore AsyncmsgqAfter q"

subsection \<open>Hook invocation\<close>

fun exec_action :: "action \<Rightarrow> rtpoll \<Rightarrow> fault + rtpoll" where
  "exec_action (ANew n) p =
     (case pa_rtpoll_item_new p n of Inl f \<Rightarrow> Inl f | Inr (x, p') \<Rightarrow> Inr p')"
| "exec_action (AFree x) p = pa_rtpoll_item_free x p"
| "exec_action (ASetBefore x c) p = pa_rtpoll_item_set_before_callback x c p"
| "exec_action (ASetAfter x c) p = pa_rtpoll_item_set_after_callback x c p"
| "exec_action (ASetUserdata x u) p = pa_rtpoll_item_set_userdata x u p"
| "exec_action (AGetPollfd x) p =
     (case pa_rtpoll_item_get_pollfd x p of Inl f \<Rightarrow> Inl f | Inr (r, p') \<Rightarrow> Inr p')"

fun exec_script :: "action list \<Rightarrow> rtpoll \<Rightarrow> fault + rtpoll" where
  "exec_script [] p = Inr p"
| "exec_script (a # as) p =
     (case exec_action a p of Inl f \<Rightarrow> Inl f | Inr p' \<Rightarrow> exec_script as p')"

text \<open>\<^verbatim>\<open>i->before_cb(i)\<close> and \<^verbatim>\<open>i->after_cb(i)\<close>, for an item whose hook is set.\<close>

definition call_before :: "ext \<Rightarrow> item \<Rightarrow> bcb \<Rightarrow> rtpoll \<Rightarrow> fault + (int \<times> rtpoll)" where
  "call_before e i c p =
     (case c of
        FdsemBefore \<Rightarrow>
          Inr (fdsem_before e i, p\<lparr>log := log p @ [EvBefore (iid i) (fdsem_before e i)]\<rparr>)
      | AsyncmsgqBefore \<Rightarrow>
          Inr (asyncmsgq_before e i, p\<lparr>log := log p @ [EvBefore (iid i) (asyncmsgq_before e i)]\<rparr>)
      | BScript as r \<Rightarrow>
          (case exec_script as p of
             Inl f \<Rightarrow> Inl f
           | Inr p' \<Rightarrow> Inr (r, p'\<lparr>log := log p' @ [EvBefore (iid i) r]\<rparr>)))"

definition call_after :: "item \<Rightarrow> acb \<Rightarrow> rtpoll \<Rightarrow> fault + rtpoll" where
  "call_after i c p =
     (let p0 = p\<lparr>log := log p @ [EvAfter (iid i) (slice_of i p)]\<rparr>
      in case c of
           FdsemAfter \<Rightarrow> fdsem_after i p0
         | AsyncmsgqAfter \<Rightarrow> asyncmsgq_after i p0
         | AScript as \<Rightarrow> exec_script as p0)"

subsection \<open>The rollback walk\<close>

text \<open>
  When a before-hook vetoes the cycle, the source walks \<^verbatim>\<open>i->prev\<close> from the vetoing item
  to the head of the list. A hook may prepend items while the walk is under way, so the walk
  reads the list of the current state at every step. \<open>ahead x p\<close> are the items in front
  of item \<open>x\<close>, \<open>prev_of x p\<close> is \<^verbatim>\<open>x->prev\<close>.
\<close>

definition ahead :: "nat \<Rightarrow> rtpoll \<Rightarrow> item list" where
  "ahead x p = takeWhile (\<lambda>i. iid i \<noteq> x) (items p)"

definition prev_of :: "nat \<Rightarrow> rtpoll \<Rightarrow> fault + nat option" where
  "prev_of x p =
     (case find_item x p of
        None \<Rightarrow> Inl MemFault
      | Some i \<Rightarrow> Inr (if ahead x p = [] then None else Some (iid (last (ahead x p)))))"

text \<open>
  The walk ends because every hook is a finite script: \<open>acb_cost\<close> bounds the weight a
  hook can add in front of the item it runs for (one for an item it creates, the cost of a
  hook it installs).
\<close>

fun acb_cost :: "acb \<Rightarrow> nat" and act_cost :: "action \<Rightarrow> nat" where
  "acb_cost (AScript as) = sum_list (map act_cost as)"
| "acb_cost FdsemAfter = 0"
| "acb_cost AsyncmsgqAfter = 0"
| "act_cost (ANew n) = 1"
| "act_cost (ASetAfter x c) = (case c of None \<Rightarrow> 0 | Some a \<Rightarrow> acb_cost a)"
| "act_cost (AFree x) = 0"
| "act_cost (ASetBefore x c) = 0"
| "act_cost (ASetUserdata x u) = 0"
| "act_cost (AGetPollfd x) = 0"

definition wt :: "item \<Rightarrow> nat" where
  "wt i = Suc (case after_cb i of None \<Rightarrow> 0 | Some a \<Rightarrow> acb_cost a)"


definition same_but_ptr :: "item \<Rightarrow> item \<Rightarrow> bool" where
  "same_but_ptr a b \<longleftrightarrow>
     iid a = iid b \<and> dead a = dead b \<and> n_pollfd a = n_pollfd b \<and>
     before_cb a = before_cb b \<and> after_cb a = after_cb b \<and> userdata a = userdata b"

definition W_ahead :: "nat \<Rightarrow> item list \<Rightarrow> nat" where
  "W_ahead x is = sum_list (map wt (takeWhile (\<lambda>i. iid i \<noteq> x) is))"

lemma rebuild_loop_same:
  "rebuild_loop act is e scr = Inr (is', e', scr') \<Longrightarrow> list_all2 same_but_ptr is' is"
proof (induction "is" arbitrary: e scr is' e' scr')
  case Nil
  then show ?case by simp
next
  case (Cons i "is")
  from Cons.prems show ?case
    by (auto simp: Let_def same_but_ptr_def split: if_splits sum.splits option.splits prod.splits
             dest!: Cons.IH)
qed

lemma rtpoll_rebuild_same:
  assumes "rtpoll_rebuild p = Inr p'"
  shows "list_all2 same_but_ptr (items p') (items p)"
    and "running p' = running p" and "log p' = log p" and "next_id p' = next_id p"
    and "scan_for_dead p' = scan_for_dead p" and "n_pollfd_used p' = n_pollfd_used p"
  using assms
  by (auto simp: rtpoll_rebuild_def Let_def split: if_splits sum.splits prod.splits
           dest!: rebuild_loop_same)

lemma W_ahead_same: "list_all2 same_but_ptr is' is \<Longrightarrow> W_ahead x is' = W_ahead x is"
  unfolding W_ahead_def
  by (induction rule: list_all2_induct) (auto simp: same_but_ptr_def wt_def)

lemma W_ahead_update_after:
  "W_ahead x (update_first y (\<lambda>j. j\<lparr>after_cb := c\<rparr>) is)
     \<le> W_ahead x is + (case c of None \<Rightarrow> 0 | Some a \<Rightarrow> acb_cost a)"
  unfolding W_ahead_def
  by (induction "is") (auto simp: wt_def split: option.splits)

lemma W_ahead_update_other:
  "(\<And>j. iid (f j) = iid j \<and> after_cb (f j) = after_cb j) \<Longrightarrow>
   W_ahead x (update_first y f is) = W_ahead x is"
  unfolding W_ahead_def
  by (induction "is") (auto simp: wt_def)

lemma exec_action_cost:
  assumes "running p" and "exec_action a p = Inr p'"
  shows "running p' \<and> W_ahead x (items p') \<le> W_ahead x (items p) + act_cost a"
proof (cases a)
  case (ANew n)
  with assms show ?thesis
    by (auto simp: pa_rtpoll_item_new_def Let_def W_ahead_def wt_def split: if_splits)
next
  case (AFree y)
  with assms show ?thesis
    by (auto simp: pa_rtpoll_item_free_def update_item_def W_ahead_update_other
             split: option.splits)
next
  case (ASetBefore y c)
  with assms show ?thesis
    by (auto simp: pa_rtpoll_item_set_before_callback_def update_item_def W_ahead_update_other
             split: option.splits)
next
  case (ASetAfter y c)
  with assms show ?thesis
    using W_ahead_update_after [of x y c "items p"]
    by (auto simp: pa_rtpoll_item_set_after_callback_def update_item_def split: option.splits)
next
  case (ASetUserdata y u)
  with assms show ?thesis
    by (auto simp: pa_rtpoll_item_set_userdata_def update_item_def W_ahead_update_other
             split: option.splits)
next
  case (AGetPollfd y)
  with assms show ?thesis
    by (auto simp: pa_rtpoll_item_get_pollfd_def rtpoll_rebuild_same(2)
                   W_ahead_same [OF rtpoll_rebuild_same(1)]
             split: option.splits sum.splits if_splits)
qed

lemma exec_script_cost:
  "running p \<Longrightarrow> exec_script as p = Inr p' \<Longrightarrow>
   running p' \<and> W_ahead x (items p') \<le> W_ahead x (items p) + sum_list (map act_cost as)"
proof (induction as arbitrary: p)
  case Nil
  then show ?case by simp
next
  case (Cons a as)
  from Cons.prems obtain p1 where a: "exec_action a p = Inr p1" and s: "exec_script as p1 = Inr p'"
    by (auto split: sum.splits)
  from exec_action_cost [OF Cons.prems(1) a, of x]
  have r1: "running p1" and w1: "W_ahead x (items p1) \<le> W_ahead x (items p) + act_cost a"
    by auto
  from Cons.IH [OF r1 s] w1 show ?case by auto
qed

lemma call_after_cost:
  assumes "running p" and "call_after i c p = Inr p'"
  shows "running p' \<and> W_ahead x (items p') \<le> W_ahead x (items p) + acb_cost c"
proof (cases c)
  case FdsemAfter
  with assms show ?thesis
    by (auto simp: call_after_def fdsem_after_def Let_def split: sum.splits)
next
  case AsyncmsgqAfter
  with assms show ?thesis
    by (auto simp: call_after_def asyncmsgq_after_def Let_def split: sum.splits)
next
  case (AScript as)
  with assms have "exec_script as (p\<lparr>log := log p @ [EvAfter (iid i) (slice_of i p)]\<rparr>) = Inr p'"
    by (simp add: call_after_def Let_def)
  from exec_script_cost [OF _ this, of x] assms(1) AScript show ?thesis by simp
qed

lemma prev_weight:
  "takeWhile (\<lambda>i. iid i \<noteq> x) is \<noteq> [] \<Longrightarrow>
   \<exists>j. find (\<lambda>i. iid i = iid (last (takeWhile (\<lambda>i. iid i \<noteq> x) is))) is = Some j \<and>
       W_ahead (iid (last (takeWhile (\<lambda>i. iid i \<noteq> x) is))) is + wt j \<le> W_ahead x is"
  unfolding W_ahead_def
  by (induction "is") (auto split: if_splits)

text \<open>
  The loop at lines 449 to 458. It runs between \<^verbatim>\<open>p->running = 1\<close> and
  \<^verbatim>\<open>p->running = 0\<close>, and no call of a hook clears the flag; the function is defined
  under that condition.
\<close>

definition rollback_measure :: "nat option \<times> rtpoll \<Rightarrow> nat" where
  "rollback_measure cp =
     (case fst cp of
        None \<Rightarrow> 0
      | Some x \<Rightarrow>
          (case find_item x (snd cp) of
             None \<Rightarrow> 0
           | Some i \<Rightarrow> W_ahead x (items (snd cp)) + wt i))"

function rollback_loop :: "nat option \<Rightarrow> rtpoll \<Rightarrow> fault + rtpoll" where
  "rollback_loop None p = Inr p"
| "rollback_loop (Some x) p =
     (if \<not> running p then Inl AssertFailed
      else
        (case find_item x p of
           None \<Rightarrow> Inl MemFault
         | Some i \<Rightarrow>
             (case (if dead i then Inr p
                    else (case after_cb i of None \<Rightarrow> Inr p | Some c \<Rightarrow> call_after i c p)) of
                Inl f \<Rightarrow> Inl f
              | Inr p' \<Rightarrow>
                  (case prev_of x p' of
                     Inl f \<Rightarrow> Inl f
                   | Inr c \<Rightarrow> rollback_loop c p'))))"
  by pat_completeness auto
termination
proof (relation "measure rollback_measure", goal_cases)
  case 1
  show ?case by simp
next
  case (2 x p i p' c)
  have w: "W_ahead x (items p') < W_ahead x (items p) + wt i"
  proof (cases "dead i")
    case True
    with 2 show ?thesis by (simp add: wt_def)
  next
    case False
    show ?thesis
    proof (cases "after_cb i")
      case None
      with False 2 show ?thesis by (simp add: wt_def)
    next
      case (Some a)
      with False 2 have "call_after i a p = Inr p'" by simp
      from call_after_cost [OF _ this, of x] 2(1) Some show ?thesis by (simp add: wt_def)
    qed
  qed
  show ?case
  proof (cases c)
    case None
    with 2 w show ?thesis
      by (auto simp: rollback_measure_def prev_of_def split: option.splits)
  next
    case (Some y)
    with 2 have ne: "takeWhile (\<lambda>i. iid i \<noteq> x) (items p') \<noteq> []"
      and y: "y = iid (last (takeWhile (\<lambda>i. iid i \<noteq> x) (items p')))"
      by (auto simp: prev_of_def ahead_def split: option.splits if_splits)
    from prev_weight [OF ne] y obtain j where
      "find_item y p' = Some j" and "W_ahead y (items p') + wt j \<le> W_ahead x (items p')"
      by (auto simp: find_item_def)
    with w Some 2 show ?thesis
      by (auto simp: rollback_measure_def split: option.splits)
  qed
qed


subsection \<open>pa\_rtpoll\_run\<close>

text \<open>
  The two forward loops follow \<^verbatim>\<open>i->next\<close> from the head. While \<^verbatim>\<open>running\<close> is set no
  item is unlinked and a new item is linked in front of the head, so the items a forward
  loop visits are the items of the list at loop entry, in that order; the fields of each
  item are read from the current state when the loop reaches it.
\<close>

fun before_loop :: "ext \<Rightarrow> nat list \<Rightarrow> rtpoll \<Rightarrow> fault + (nat option \<times> rtpoll)" where
  "before_loop e [] p = Inr (None, p)"
| "before_loop e (x # xs) p =
     (case find_item x p of
        None \<Rightarrow> Inl MemFault
      | Some i \<Rightarrow>
          (if dead i then before_loop e xs p
           else
             (case before_cb i of
                None \<Rightarrow> before_loop e xs p
              | Some c \<Rightarrow>
                  (case call_before e i c p of
                     Inl f \<Rightarrow> Inl f
                   | Inr (r, p') \<Rightarrow>
                       (if r < 0 then Inr (Some x, p') else before_loop e xs p')))))"

definition clear_revents :: "item \<Rightarrow> rtpoll \<Rightarrow> fault + rtpoll" where
  "clear_revents i p =
     (let n = unat (n_pollfd i) in
      if n = 0 then Inr p
      else
        (case pollfd_ptr i of
           None \<Rightarrow> Inl MemFault
         | Some off \<Rightarrow>
             (if length (pollfd p) < off + n then Inl MemFault
              else
                Inr (p\<lparr>pollfd :=
                         take off (pollfd p)
                         @ map (\<lambda>d. d\<lparr>revents := 0\<rparr>) (take n (drop off (pollfd p)))
                         @ drop (off + n) (pollfd p)\<rparr>))))"

fun after_loop :: "bool \<Rightarrow> nat list \<Rightarrow> rtpoll \<Rightarrow> fault + rtpoll" where
  "after_loop no_events [] p = Inr p"
| "after_loop no_events (x # xs) p =
     (case find_item x p of
        None \<Rightarrow> Inl MemFault
      | Some i \<Rightarrow>
          (if dead i then after_loop no_events xs p
           else
             (case after_cb i of
                None \<Rightarrow> after_loop no_events xs p
              | Some c \<Rightarrow>
                  (case (if no_events then clear_revents i p else Inr p) of
                     Inl f \<Rightarrow> Inl f
                   | Inr p1 \<Rightarrow>
                       (case call_after i c p1 of
                          Inl f \<Rightarrow> Inl f
                        | Inr p' \<Rightarrow> after_loop no_events xs p')))))"

text \<open>The loop at lines 542 to 547; \<^verbatim>\<open>n = i->next\<close> is read before the item is destroyed.\<close>

fun reap_loop :: "nat list \<Rightarrow> rtpoll \<Rightarrow> fault + rtpoll" where
  "reap_loop [] p = Inr p"
| "reap_loop (x # xs) p =
     (case find_item x p of
        None \<Rightarrow> Inl MemFault
      | Some i \<Rightarrow>
          (if dead i
           then (case rtpoll_item_destroy x p of Inl f \<Rightarrow> Inl f | Inr p' \<Rightarrow> reap_loop xs p')
           else reap_loop xs p))"

text \<open>The label \<^verbatim>\<open>finish\<close>: lines 533 to 552.\<close>

definition finish :: "int \<Rightarrow> int \<Rightarrow> rtpoll \<Rightarrow> fault + (int \<times> rtpoll)" where
  "finish r saved_errno p =
     (let p1 = p\<lparr>running := False\<rparr>
      in case (if scan_for_dead p1 then reap_loop (ids p1) (p1\<lparr>scan_for_dead := False\<rparr>)
               else Inr p1) of
           Inl f \<Rightarrow> Inl f
         | Inr p2 \<Rightarrow> Inr (r, p2\<lparr>errno := saved_errno\<rparr>))"

text \<open>
  What one cycle gets from outside: the two readings of the clock, what the wait call
  returns, the error code it leaves on failure, the readiness bits the kernel writes into
  the buffer, and the value an uninitialised \<^verbatim>\<open>int\<close> on the stack holds.
\<close>

record cycle =
  now_before :: nat
  now_after :: nat
  wait_ret :: int
  wait_errno :: int
  wait_revents :: "16 word list"
  uninit_int :: int

text \<open>
  Modelled from the spec: \<^verbatim>\<open>EINTR\<close> and \<^verbatim>\<open>EAGAIN\<close> come from \<^verbatim>\<open>errno.h\<close>, which is not part of
  the source; the spec calls them the benign signal conditions. The values are those of
  Linux.
\<close>

definition EINTR :: int where
  "EINTR = 4"

definition EAGAIN :: int where
  "EAGAIN = 11"

definition write_revents :: "16 word list \<Rightarrow> pollfd list \<Rightarrow> pollfd list" where
  "write_revents rs buf =
     map (\<lambda>(d, r). d\<lparr>revents := r\<rparr>) (zip buf rs) @ drop (length rs) buf"

text \<open>
  The wait call on the first \<^verbatim>\<open>n_pollfd_used\<close> entries of the active buffer. The timeout is
  the argument as the system call receives it: microseconds of the \<^verbatim>\<open>timespec\<close> for
  \<^verbatim>\<open>ppoll\<close>, the \<^verbatim>\<open>int\<close> of milliseconds for \<^verbatim>\<open>poll\<close>; \<open>None\<close> is the \<^verbatim>\<open>NULL\<close> pointer of
  \<^verbatim>\<open>ppoll\<close> and the literal \<^verbatim>\<open>-1\<close> of \<^verbatim>\<open>poll\<close>, which block.
\<close>

definition sys_wait :: "cycle \<Rightarrow> int option \<Rightarrow> rtpoll \<Rightarrow> int \<times> rtpoll" where
  "sys_wait cy tmo p =
     (wait_ret cy,
      p\<lparr>pollfd := write_revents (take (unat (n_pollfd_used p)) (wait_revents cy)) (pollfd p),
        errno := (if wait_ret cy < 0 then wait_errno cy else errno p),
        log := log p @ [EvWait (take (unat (n_pollfd_used p)) (pollfd p)) tmo]\<rparr>)"

text \<open>
  The build: \<^verbatim>\<open>HAVE_PPOLL\<close> and \<^verbatim>\<open>__linux__\<close>. Lines 479 to 493 after preprocessing:
  with both defined the text is
  \<^verbatim>\<open>if (!p->dont_use_ppoll) r = ppoll(...); else saved_errno = errno;\<close>
  with only \<^verbatim>\<open>HAVE_PPOLL\<close> it is \<^verbatim>\<open>r = ppoll(...); saved_errno = errno;\<close> and without
  \<^verbatim>\<open>HAVE_PPOLL\<close> it is \<^verbatim>\<open>r = poll(...); saved_errno = errno;\<close>.
  The result is \<open>(r, saved_errno, state)\<close>.

  \<^verbatim>\<open>poll_timeout\<close> is the third argument of \<^verbatim>\<open>poll\<close> on line 490,
  \<^verbatim>\<open>(timeout.tv_sec*1000) + (timeout.tv_nsec / 1000000)\<close>, converted to the \<^verbatim>\<open>int\<close> parameter:
  the milliseconds modulo \<open>2 ^ 32\<close>, read as a signed number.
\<close>

definition poll_timeout :: "nat \<Rightarrow> int" where
  "poll_timeout t = sint (word_of_nat (t div 1000) :: 32 word)"

record build =
  have_ppoll :: bool
  is_linux :: bool

definition wait_step :: "build \<Rightarrow> cycle \<Rightarrow> nat option \<Rightarrow> rtpoll \<Rightarrow> int \<times> int \<times> rtpoll" where
  "wait_step b cy tmo p =
     (if have_ppoll b then
        (if is_linux b then
           (if \<not> dont_use_ppoll p
            then (case sys_wait cy (map_option int tmo) p of (r, p') \<Rightarrow> (r, uninit_int cy, p'))
            else (0, errno p, p))
         else (case sys_wait cy (map_option int tmo) p of (r, p') \<Rightarrow> (r, errno p', p')))
      else (case sys_wait cy (map_option poll_timeout tmo) p of (r, p') \<Rightarrow> (r, errno p', p')))"

definition calc_timeout :: "cycle \<Rightarrow> rtpoll \<Rightarrow> nat option" where
  "calc_timeout cy p =
     (if timer_enabled p then
        Some (if pa_timespec_cmp (next_elapse p) (now_before cy) \<le> 0 then 0
              else pa_timespec_diff (next_elapse p) (now_before cy))
      else None)"

definition pa_rtpoll_run :: "build \<Rightarrow> ext \<Rightarrow> cycle \<Rightarrow> rtpoll \<Rightarrow> fault + (int \<times> rtpoll)" where
  "pa_rtpoll_run b e cy p =
     (if running p then Inl AssertFailed
      else if \<not> installed p then Inl AssertFailed
      else
        (let p0 = p\<lparr>running := True\<rparr>
         in case before_loop e (ids p0) p0 of
              Inl f \<Rightarrow> Inl f
            | Inr (Some x, p1) \<Rightarrow>
                (case prev_of x p1 of
                   Inl f \<Rightarrow> Inl f
                 | Inr c \<Rightarrow>
                     (case rollback_loop c p1 of
                        Inl f \<Rightarrow> Inl f
                      | Inr p2 \<Rightarrow> finish 0 (uninit_int cy) p2))
            | Inr (None, p1) \<Rightarrow>
                (case (if rebuild_needed p1 then rtpoll_rebuild p1 else Inr p1) of
                   Inl f \<Rightarrow> Inl f
                 | Inr p2 \<Rightarrow>
                     (case wait_step b cy (calc_timeout cy p2) p2 of
                        (r, saved_errno, p3) \<Rightarrow>
                          (let p4 = timer_after_wait (now_after cy) p3;
                               no_events = (r = 0 \<or> (r < 0 \<and> (errno p4 = EAGAIN \<or> errno p4 = EINTR)))
                           in case after_loop no_events (ids p4) p4 of
                                Inl f \<Rightarrow> Inl f
                              | Inr p5 \<Rightarrow> finish (if no_events then 0 else r) saved_errno p5)))))"

section \<open>Properties\<close>

subsection \<open>Creation order and the item list\<close>

text \<open>\<open>create_items p ns\<close> calls \<^verbatim>\<open>pa_rtpoll_item_new\<close> once for every count of \<open>ns\<close>, in
  order, and returns the identities of the new items in creation order.\<close>

fun create_items :: "rtpoll \<Rightarrow> 32 word list \<Rightarrow> fault + (nat list \<times> rtpoll)" where
  "create_items p [] = Inr ([], p)"
| "create_items p (n # ns) =
     (case pa_rtpoll_item_new p n of
        Inl f \<Rightarrow> Inl f
      | Inr (x, p1) \<Rightarrow>
          (case create_items p1 ns of
             Inl f \<Rightarrow> Inl f
           | Inr (xs, p') \<Rightarrow> Inr (x # xs, p')))"

lemma create_items_order:
  "0 \<notin> set ns \<Longrightarrow>
   \<exists>xs p'. create_items p ns = Inr (xs, p') \<and> length xs = length ns \<and>
     xs = [next_id p ..< next_id p + length ns] \<and>
     items p' = rev (map (\<lambda>(x, n). \<lparr>iid = x, dead = False, pollfd_ptr = None, n_pollfd = n,
                    before_cb = None, after_cb = None, userdata = None\<rparr>) (zip xs ns)) @ items p"
proof (induction ns arbitrary: p)
  case Nil
  then show ?case by simp
next
  case (Cons n ns)
  then have n: "n \<noteq> 0" and ns: "0 \<notin> set ns" by auto
  obtain p1 where p1: "pa_rtpoll_item_new p n = Inr (next_id p, p1)"
    and i1: "items p1 = \<lparr>iid = next_id p, dead = False, pollfd_ptr = None, n_pollfd = n,
                    before_cb = None, after_cb = None, userdata = None\<rparr> # items p"
    and n1: "next_id p1 = Suc (next_id p)"
    using n by (simp add: pa_rtpoll_item_new_def Let_def)
  from Cons.IH [OF ns, of p1] obtain xs p' where
    c: "create_items p1 ns = Inr (xs, p')" and l: "length xs = length ns"
    and x: "xs = [next_id p1 ..< next_id p1 + length ns]"
    and i: "items p' = rev (map (\<lambda>(x, n). \<lparr>iid = x, dead = False, pollfd_ptr = None, n_pollfd = n,
                    before_cb = None, after_cb = None, userdata = None\<rparr>) (zip xs ns)) @ items p1"
    by blast
  show ?case using p1 i1 n1 c l x i by (simp add: upt_rec)
qed

text \<open>
  C9. \<^verbatim>\<open>pa_rtpoll_item_new\<close> links the new item at the head of the item list: the list after
  the call is the new item followed by the list before the call. A sequence of creations
  therefore leaves the new items in front of the list in reverse creation order, the most
  recently created first. This list is the one \<^verbatim>\<open>pa_rtpoll_run\<close> and \<^verbatim>\<open>rtpoll_rebuild\<close>
  walk (\<open>ids\<close> and \<open>items\<close> in their definitions).
\<close>

theorem item_new_head:
  "n_fds \<noteq> 0 \<Longrightarrow> 0 \<notin> set ns \<Longrightarrow>
   (\<exists>p'. pa_rtpoll_item_new p n_fds = Inr (next_id p, p') \<and>
      ids p' = next_id p # ids p \<and> tl (items p') = items p \<and>
      n_pollfd (hd (items p')) = n_fds) \<and>
   (\<exists>xs p'. create_items p ns = Inr (xs, p') \<and>
      ids p' = rev xs @ ids p \<and>
      map n_pollfd (items p') = rev ns @ map n_pollfd (items p))"
proof
  assume "n_fds \<noteq> 0"
  then show "\<exists>p'. pa_rtpoll_item_new p n_fds = Inr (next_id p, p') \<and>
      ids p' = next_id p # ids p \<and> tl (items p') = items p \<and>
      n_pollfd (hd (items p')) = n_fds"
    by (simp add: pa_rtpoll_item_new_def Let_def ids_def)
next
  assume "0 \<notin> set ns"
  from create_items_order [OF this, of p] obtain xs p' where
    c: "create_items p ns = Inr (xs, p')" and l: "length xs = length ns"
    and i: "items p' = rev (map (\<lambda>(x, n). \<lparr>iid = x, dead = False, pollfd_ptr = None, n_pollfd = n,
                    before_cb = None, after_cb = None, userdata = None\<rparr>) (zip xs ns)) @ items p"
    by blast
  have a: "map iid (map (\<lambda>(x, n). \<lparr>iid = x, dead = False, pollfd_ptr = None, n_pollfd = n,
                    before_cb = None, after_cb = None, userdata = None\<rparr>) (zip xs ns)) = xs"
    using l by (induction xs ns rule: list_induct2) auto
  have b: "map n_pollfd (map (\<lambda>(x, n). \<lparr>iid = x, dead = False, pollfd_ptr = None, n_pollfd = n,
                    before_cb = None, after_cb = None, userdata = None\<rparr>) (zip xs ns)) = ns"
    using l by (induction xs ns rule: list_induct2) auto
  show "\<exists>xs p'. create_items p ns = Inr (xs, p') \<and>
      ids p' = rev xs @ ids p \<and>
      map n_pollfd (items p') = rev ns @ map n_pollfd (items p)"
    using c i a b by (simp add: ids_def rev_map [symmetric])
qed

theorem item_new_head_witness:
  "(5 :: 32 word) \<noteq> 0 \<and>
   (\<exists>p'. pa_rtpoll_item_new (pa_rtpoll_new zero_pollfd False) 5 =
           Inr (next_id (pa_rtpoll_new zero_pollfd False), p') \<and>
      ids p' = [0] \<and> n_pollfd (hd (items p')) = 5) \<and>
   (\<exists>xs p'. create_items (pa_rtpoll_new zero_pollfd False) [2, 1, 3] = Inr (xs, p') \<and>
      ids p' = rev xs \<and> map n_pollfd (items p') = [3, 1, 2])"
proof -
  have h1: "(5 :: 32 word) \<noteq> 0" by simp
  have h2: "(0 :: 32 word) \<notin> set [2, 1, 3]" by simp
  have e: "ids (pa_rtpoll_new zero_pollfd False) = []" "next_id (pa_rtpoll_new zero_pollfd False) = 0"
    "items (pa_rtpoll_new zero_pollfd False) = []"
    by (simp_all add: pa_rtpoll_new_def ids_def)
  from item_new_head [OF h1 h2, of "pa_rtpoll_new zero_pollfd False"] e h1
  show ?thesis by auto
qed


subsection \<open>Freeing an item during a cycle\<close>

text \<open>
  C10. When a cycle is running, \<^verbatim>\<open>pa_rtpoll_item_free\<close> on a linked item sets the item's
  \<open>dead\<close> flag and the poll set's \<open>scan_for_dead\<close> flag and nothing else of the source's
  state (the log is the ghost record of the call): the list keeps its items and their
  order, the used-slot count, \<open>rebuild_needed\<close> and both buffers are unchanged, every other
  item is unchanged, and the item keeps its slot slice, hooks and user data.
\<close>

theorem item_free_running_frame:
  "running p \<Longrightarrow> find_item x p = Some i \<Longrightarrow>
   (\<exists>p'. pa_rtpoll_item_free x p = Inr p' \<and>
      p' = p\<lparr>items := update_first x (\<lambda>j. j\<lparr>dead := True\<rparr>) (items p),
             scan_for_dead := True, log := log p @ [EvFreeCall x]\<rparr> \<and>
      ids p' = ids p \<and>
      map (\<lambda>j. j\<lparr>dead := True\<rparr>) (filter (\<lambda>j. iid j = x) (items p'))
        = map (\<lambda>j. j\<lparr>dead := True\<rparr>) (filter (\<lambda>j. iid j = x) (items p)) \<and>
      filter (\<lambda>j. iid j \<noteq> x) (items p') = filter (\<lambda>j. iid j \<noteq> x) (items p) \<and>
      n_pollfd_used p' = n_pollfd_used p \<and> rebuild_needed p' = rebuild_needed p \<and>
      pollfd p' = pollfd p \<and> pollfd2 p' = pollfd2 p \<and>
      (\<exists>i'. find_item x p' = Some i' \<and> i' = i\<lparr>dead := True\<rparr> \<and> slice_of i' p' = slice_of i p))"
proof -
  assume r: "running p" and f: "find_item x p = Some i"
  let ?p' = "p\<lparr>items := update_first x (\<lambda>j. j\<lparr>dead := True\<rparr>) (items p),
             scan_for_dead := True, log := log p @ [EvFreeCall x]\<rparr>"
  have 1: "pa_rtpoll_item_free x p = Inr ?p'"
    using r f by (simp add: pa_rtpoll_item_free_def update_item_def)
  have 2: "map iid (update_first x (\<lambda>j. j\<lparr>dead := True\<rparr>) is) = map iid is" for "is"
    by (induction "is") auto
  have 3: "map (\<lambda>j. j\<lparr>dead := True\<rparr>) (filter (\<lambda>j. iid j = x) (update_first x (\<lambda>j. j\<lparr>dead := True\<rparr>) is))
        = map (\<lambda>j. j\<lparr>dead := True\<rparr>) (filter (\<lambda>j. iid j = x) is)" for "is"
    by (induction "is") auto
  have 4: "filter (\<lambda>j. iid j \<noteq> x) (update_first x (\<lambda>j. j\<lparr>dead := True\<rparr>) is)
        = filter (\<lambda>j. iid j \<noteq> x) is" for "is"
    by (induction "is") auto
  have 5: "find (\<lambda>j. iid j = x) is = Some i \<Longrightarrow>
        find (\<lambda>j. iid j = x) (update_first x (\<lambda>j. j\<lparr>dead := True\<rparr>) is) = Some (i\<lparr>dead := True\<rparr>)" for "is"
    by (induction "is") auto
  show ?thesis
    using 1 2 3 4 5 [of "items p"] f
    by (simp add: ids_def find_item_def slice_of_def split: option.splits)
qed

theorem item_free_running_frame_witness:
  "(\<exists>p'. pa_rtpoll_item_free 0
           (pa_rtpoll_new zero_pollfd False
              \<lparr>running := True,
               items := [\<lparr>iid = 0, dead = False, pollfd_ptr = None, n_pollfd = 1,
                          before_cb = None, after_cb = None, userdata = None\<rparr>]\<rparr>) = Inr p' \<and>
      map dead (items p') = [True] \<and> scan_for_dead p' \<and> ids p' = [0] \<and>
      rebuild_needed p' = False \<and> n_pollfd_used p' = 0)"
proof -
  let ?i = "\<lparr>iid = 0, dead = False, pollfd_ptr = None, n_pollfd = 1,
              before_cb = None, after_cb = None, userdata = None\<rparr>"
  let ?p = "pa_rtpoll_new zero_pollfd False \<lparr>running := True, items := [?i]\<rparr>"
  have r: "running ?p" by (simp add: pa_rtpoll_new_def)
  have f: "find_item 0 ?p = Some ?i" by (simp add: find_item_def pa_rtpoll_new_def)
  from item_free_running_frame [OF r f] show ?thesis
    by (auto simp: pa_rtpoll_new_def ids_def)
qed

subsection \<open>The used-slot count\<close>

text \<open>A creation or a destruction requested from outside a cycle.\<close>

datatype op = OpNew "32 word" | OpFree nat

fun apply_ops :: "op list \<Rightarrow> rtpoll \<Rightarrow> fault + rtpoll" where
  "apply_ops [] p = Inr p"
| "apply_ops (OpNew n # os) p =
     (case pa_rtpoll_item_new p n of Inl f \<Rightarrow> Inl f | Inr (x, p') \<Rightarrow> apply_ops os p')"
| "apply_ops (OpFree x # os) p =
     (case pa_rtpoll_item_free x p of Inl f \<Rightarrow> Inl f | Inr p' \<Rightarrow> apply_ops os p')"

definition live_items :: "rtpoll \<Rightarrow> item list" where
  "live_items p = filter (\<lambda>i. \<not> dead i) (items p)"

text \<open>
  The poll set between cycles: no cycle is running, no item is marked dead, and the used-slot
  count is the sum of the items' slot counts (in \<^verbatim>\<open>unsigned\<close> arithmetic).
\<close>

definition quiescent :: "rtpoll \<Rightarrow> bool" where
  "quiescent p \<longleftrightarrow>
     \<not> running p \<and> list_all (\<lambda>i. \<not> dead i) (items p) \<and>
     n_pollfd_used p = sum_list (map n_pollfd (items p))"

lemma remove_first_sum:
  "find (\<lambda>j. iid j = x) is = Some i \<Longrightarrow>
   sum_list (map n_pollfd (remove_first x is)) = sum_list (map n_pollfd is) - n_pollfd (i :: item)"
  by (induction "is") (auto split: if_splits)

lemma remove_first_all: "list_all P is \<Longrightarrow> list_all P (remove_first x is)"
  by (induction "is") auto

lemma quiescent_new:
  "quiescent p \<Longrightarrow> pa_rtpoll_item_new p n = Inr (x, p') \<Longrightarrow> quiescent p'"
  by (auto simp: quiescent_def pa_rtpoll_item_new_def Let_def split: if_splits)

lemma quiescent_free:
  "quiescent p \<Longrightarrow> pa_rtpoll_item_free x p = Inr p' \<Longrightarrow> quiescent p'"
  by (auto simp: quiescent_def pa_rtpoll_item_free_def rtpoll_item_destroy_def find_item_def
                 remove_first_sum remove_first_all
           split: option.splits)

lemma quiescent_ops: "quiescent p \<Longrightarrow> apply_ops os p = Inr p' \<Longrightarrow> quiescent p'"
proof (induction os p rule: apply_ops.induct)
  case (1 p)
  then show ?case by simp
next
  case (2 n os p)
  then show ?case by (auto split: sum.splits dest: quiescent_new)
next
  case (3 x os p)
  then show ?case by (auto split: sum.splits dest: quiescent_free)
qed

lemma quiescent_fresh: "quiescent (pa_rtpoll_new junk k)"
  by (simp add: quiescent_def pa_rtpoll_new_def)

lemma unat_sum_list:
  "unat (sum_list (ws :: 32 word list)) = sum_list (map unat ws) mod 2 ^ 32"
  by (induction ws) (simp_all add: unat_word_ariths mod_simps)

text \<open>
  C6, as the code has it. After any sequence of item creations and destructions performed
  while no cycle is running, \<open>n_pollfd_used\<close> equals the sum of the slot counts of the live
  items of the list in \<^verbatim>\<open>unsigned\<close> arithmetic: read as natural numbers, the count is the
  sum modulo \<open>2 ^ 32\<close>, and it is the sum itself whenever the sum is below \<open>2 ^ 32\<close>.
\<close>

theorem used_is_sum_of_live:
  "quiescent p \<Longrightarrow> apply_ops os p = Inr p' \<Longrightarrow>
   \<not> running p' \<and>
   n_pollfd_used p' = sum_list (map n_pollfd (live_items p')) \<and>
   unat (n_pollfd_used p') = sum_list (map (\<lambda>i. unat (n_pollfd i)) (live_items p')) mod 2 ^ 32 \<and>
   (sum_list (map (\<lambda>i. unat (n_pollfd i)) (live_items p')) < 2 ^ 32 \<longrightarrow>
      unat (n_pollfd_used p') = sum_list (map (\<lambda>i. unat (n_pollfd i)) (live_items p')))"
proof -
  assume "quiescent p" and "apply_ops os p = Inr p'"
  then have q: "quiescent p'" by (rule quiescent_ops)
  then have l: "live_items p' = items p'"
    by (simp add: quiescent_def live_items_def list_all_iff)
  have "unat (sum_list (map n_pollfd (items p'))) = sum_list (map unat (map n_pollfd (items p'))) mod 2 ^ 32"
    by (rule unat_sum_list)
  with q l show ?thesis by (simp add: quiescent_def comp_def)
qed

theorem used_is_sum_of_live_witness:
  "quiescent (pa_rtpoll_new zero_pollfd False) \<and>
   (\<exists>p'. apply_ops [OpNew 2, OpNew 1, OpNew 3, OpFree 1] (pa_rtpoll_new zero_pollfd False) = Inr p' \<and>
      map n_pollfd (live_items p') = [3, 2] \<and> n_pollfd_used p' = 5 \<and>
      n_pollfd_used p' = sum_list (map n_pollfd (live_items p')) \<and>
      sum_list (map (\<lambda>i. unat (n_pollfd i)) (live_items p')) = 5 \<and>
      unat (n_pollfd_used p') = sum_list (map (\<lambda>i. unat (n_pollfd i)) (live_items p')))"
proof -
  have q: "quiescent (pa_rtpoll_new zero_pollfd False)" by (rule quiescent_fresh)
  obtain p' where a: "apply_ops [OpNew 2, OpNew 1, OpNew 3, OpFree 1] (pa_rtpoll_new zero_pollfd False) = Inr p'"
    and b: "map n_pollfd (live_items p') = [3, 2]" and c: "n_pollfd_used p' = 5"
    by (simp add: pa_rtpoll_new_def pa_rtpoll_item_new_def pa_rtpoll_item_free_def
                  rtpoll_item_destroy_def find_item_def live_items_def Let_def)
  from b have "map unat (map n_pollfd (live_items p')) = [3, 2]" by simp
  then have d: "sum_list (map (\<lambda>i. unat (n_pollfd i)) (live_items p')) = 5"
    by (simp add: comp_def)
  from used_is_sum_of_live [OF q a] a b c d q show ?thesis by auto
qed

text \<open>
  C6 as stated (the count equals the sum of the slot counts) does not hold once the sum
  reaches \<open>2 ^ 32\<close>: \<^verbatim>\<open>n_pollfd_used\<close> is an \<^verbatim>\<open>unsigned\<close> and \<^verbatim>\<open>pa_rtpoll_item_new\<close> adds to it
  without a check. Two items of \<open>2 ^ 31\<close> slots each are both live, their slot counts sum to
  \<open>2 ^ 32\<close>, and the count is 0.
\<close>

theorem used_wraps_counterexample:
  "\<exists>p'. apply_ops [OpNew 0x80000000, OpNew 0x80000000] (pa_rtpoll_new zero_pollfd False) = Inr p' \<and>
     \<not> running p' \<and>
     map (\<lambda>i. unat (n_pollfd i)) (live_items p') = [2147483648, 2147483648] \<and>
     sum_list (map (\<lambda>i. unat (n_pollfd i)) (live_items p')) = 4294967296 \<and>
     unat (n_pollfd_used p') = 0 \<and>
     unat (n_pollfd_used p') \<noteq> sum_list (map (\<lambda>i. unat (n_pollfd i)) (live_items p'))"
  by (simp add: pa_rtpoll_new_def pa_rtpoll_item_new_def live_items_def Let_def)


subsection \<open>The layout a rebuild produces\<close>

text \<open>\<open>slot_range x p\<close> is the half-open range of slots of the active buffer that item \<open>x\<close>
  owns. \<open>rebuilt_layout p ns\<close> creates items with the counts \<open>ns\<close>, rebuilds, and returns the
  used-slot count and the ranges of the new items in creation order.\<close>

definition slot_range :: "nat \<Rightarrow> rtpoll \<Rightarrow> (nat \<times> nat) option" where
  "slot_range x p =
     (case find_item x p of
        None \<Rightarrow> None
      | Some i \<Rightarrow>
          (case pollfd_ptr i of
             None \<Rightarrow> None
           | Some off \<Rightarrow> Some (off, off + unat (n_pollfd i))))"

definition rebuilt_layout :: "rtpoll \<Rightarrow> 32 word list \<Rightarrow> fault + (32 word \<times> (nat \<times> nat) option list)" where
  "rebuilt_layout p ns =
     (case create_items p ns of
        Inl f \<Rightarrow> Inl f
      | Inr (xs, p1) \<Rightarrow>
          (case rtpoll_rebuild p1 of
             Inl f \<Rightarrow> Inl f
           | Inr p2 \<Rightarrow> Inr (n_pollfd_used p2, map (\<lambda>x. slot_range x p2) xs)))"

lemma rebuilt_213:
  "rebuilt_layout (pa_rtpoll_new junk k) [2, 1, 3] = Inr (6, [Some (4, 6), Some (3, 4), Some (0, 3)])"
  by (simp add: rebuilt_layout_def pa_rtpoll_new_def pa_rtpoll_item_new_def Let_def
                rtpoll_rebuild_def slot_range_def find_item_def)

text \<open>
  C3, as the code has it. For a poll set with exactly three items created in the order 2, 1, 3
  slots, a rebuild lays out 6 slots in the order of the item list, which is most recently
  created first: the third-created item owns slots [0,3), the second-created [3,4) and the
  first-created [4,6).
\<close>

theorem rebuild_layout_213_list_order:
  "rebuilt_layout (pa_rtpoll_new junk k) [2, 1, 3] = Inr (6, [Some (4, 6), Some (3, 4), Some (0, 3)])"
  by (rule rebuilt_213)

text \<open>
  C3 as stated (the first-created item owns [0,2), the second [2,3), the third [3,6)) does
  not hold.
\<close>

theorem rebuild_layout_213_counterexample:
  "rebuilt_layout (pa_rtpoll_new zero_pollfd False) [2, 1, 3]
     \<noteq> Inr (6, [Some (0, 2), Some (2, 3), Some (3, 6)])"
  by (simp add: rebuilt_213)


subsection \<open>The periodic timer after the wait\<close>

text \<open>
  With a periodic timer of period \<open>P\<close> and deadline \<open>D\<close> before the cycle, the deadline after
  the wait is \<open>D + k * P\<close> for the least \<open>k \<ge> 1\<close> that puts it strictly after the time of
  resumption, whenever that time is not exactly \<open>D + P\<close>.
\<close>

lemma periodic_catch_up:
  assumes en: "timer_enabled p" and per: "0 < period p"
    and ne: "now \<noteq> next_elapse p + period p"
  shows "\<exists>k. 1 \<le> k \<and>
           next_elapse (timer_after_wait now p) = next_elapse p + k * period p \<and>
           now < next_elapse p + k * period p \<and>
           (\<forall>j. 1 \<le> j \<and> now < next_elapse p + j * period p \<longrightarrow> k \<le> j)"
proof (cases "now < next_elapse p + period p")
  case True
  then have "next_elapse (timer_after_wait now p) = next_elapse p + 1 * period p"
    using en per
    by (simp add: timer_after_wait_def pa_timespec_add_def pa_timespec_cmp_def Let_def)
  with True show ?thesis by (intro exI [of _ 1]) simp
next
  case False
  with ne have lt: "next_elapse p + period p < now" by simp
  define x where "x = now - (next_elapse p + period p)"
  define q where "q = x div period p"
  have now: "now = next_elapse p + period p + x" using lt by (simp add: x_def)
  have lo: "q * period p \<le> x" by (simp add: q_def)
  have hi: "x < (q + 1) * period p"
    using per dividend_less_times_div [of "period p" x] by (simp add: q_def algebra_simps)
  have val: "next_elapse (timer_after_wait now p) = next_elapse p + (q + 2) * period p"
    using en per lt
    by (simp add: timer_after_wait_def pa_timespec_add_def pa_timespec_cmp_def
                  pa_timespec_diff_def Let_def q_def x_def algebra_simps)
  have fut: "now < next_elapse p + (q + 2) * period p"
    using hi now by (simp add: algebra_simps)
  have least: "q + 2 \<le> j" if j: "1 \<le> j" "now < next_elapse p + j * period p" for j
  proof (rule ccontr)
    assume "\<not> q + 2 \<le> j"
    then have "j \<le> q + 1" by simp
    then have "j * period p \<le> (q + 1) * period p" by (rule mult_le_mono1)
    also have "\<dots> = period p + q * period p" by simp
    also have "\<dots> \<le> period p + x" using lo by simp
    finally have "next_elapse p + j * period p \<le> now" using now by simp
    with j show False by simp
  qed
  show ?thesis
    using val fut least by (intro exI [of _ "q + 2"]) auto
qed

text \<open>Armed at \<open>t0\<close> with period \<open>2 * h\<close> and resumed seven and a half periods later.\<close>

lemma periodic_seven_and_a_half:
  assumes "0 < h"
  shows "next_elapse (timer_after_wait (t0 + 15 * h) (pa_rtpoll_set_timer_periodic t0 (2 * h) p))
           = t0 + 16 * h"
proof -
  have "(11 * h) div (2 * h) = 5" using assms by simp
  with assms show ?thesis
    by (simp add: timer_after_wait_def pa_rtpoll_set_timer_periodic_def pa_timespec_add_def
                  pa_timespec_cmp_def pa_timespec_diff_def Let_def)
qed

text \<open>An installed poll set without items, a cycle whose wait times out at time \<open>t\<close>, and
  external primitives that are never called.\<close>

definition idle_poll_set :: rtpoll where
  "idle_poll_set = (pa_rtpoll_new zero_pollfd False)\<lparr>installed := True\<rparr>"

definition quiet_cycle :: "nat \<Rightarrow> cycle" where
  "quiet_cycle t = \<lparr>now_before = t, now_after = t, wait_ret = 0, wait_errno = 0,
                    wait_revents = [], uninit_int = 0\<rparr>"

definition no_ext :: ext where
  "no_ext = \<lparr>pa_fdsem_get = (\<lambda>h. 0), pa_fdsem_before_poll = (\<lambda>u. 0),
             pa_asyncmsgq_get_fd = (\<lambda>h. 0), pa_asyncmsgq_before_poll = (\<lambda>u. 0)\<rparr>"

text \<open>
  C2 at the input where the code departs from it. A periodic timer with period 10 is armed
  at time 0, so the deadline is 10; no cycle runs until time 20, when the wait returns. The
  code adds one period to the deadline and compares with \<^verbatim>\<open>pa_timespec_cmp(...) < 0\<close>, which
  is false for equal times: the new deadline is 20, the time of resumption itself, not the
  strictly later 30.
\<close>

theorem periodic_deadline_equal_to_now:
  "map_sum id (\<lambda>(r, p'). (next_elapse p', period p', timer_enabled p'))
     (pa_rtpoll_run \<lparr>have_ppoll = False, is_linux = True\<rparr> no_ext (quiet_cycle 20)
        (pa_rtpoll_set_timer_periodic 0 10 idle_poll_set))
   = Inr (20, 10, True)"
  by (simp add: pa_rtpoll_run_def pa_rtpoll_set_timer_periodic_def idle_poll_set_def
                pa_rtpoll_new_def quiet_cycle_def ids_def wait_step_def sys_wait_def
                calc_timeout_def timer_after_wait_def pa_timespec_add_def pa_timespec_cmp_def
                pa_timespec_diff_def finish_def Let_def write_revents_def)

subsection \<open>The semaphore adapter\<close>

text \<open>
  The layout of a poll set is sound when both buffers have the allocated length, the slot
  counts of the items add up to the used-slot count without wrapping, and every item pointer
  lies inside the active buffer.
\<close>

definition ptr_ok :: "pollfd list \<Rightarrow> item \<Rightarrow> bool" where
  "ptr_ok act i \<longleftrightarrow>
     (case pollfd_ptr i of None \<Rightarrow> True | Some off \<Rightarrow> off + unat (n_pollfd i) \<le> length act)"

definition slots :: "item list \<Rightarrow> nat" where
  "slots is = sum_list (map (\<lambda>i. unat (n_pollfd i)) is)"

definition layout_ok :: "rtpoll \<Rightarrow> bool" where
  "layout_ok p \<longleftrightarrow>
     length (pollfd p) = unat (n_pollfd_alloc p) \<and>
     length (pollfd2 p) = unat (n_pollfd_alloc p) \<and>
     slots (items p) = unat (n_pollfd_used p) \<and>
     list_all (ptr_ok (pollfd p)) (items p)"

lemma rebuild_loop_ok:
  "list_all (ptr_ok act) is \<Longrightarrow> e + slots is \<le> length scr \<Longrightarrow>
   \<exists>is' scr'. rebuild_loop act is e scr = Inr (is', e + slots is, scr') \<and>
     length scr' = length scr \<and> take e scr' = take e scr \<and>
     list_all (ptr_ok scr') is'"
proof (induction "is" arbitrary: e scr)
  case Nil
  then show ?case by (simp add: slots_def)
next
  case (Cons i "is")
  let ?l = "unat (n_pollfd i)"
  from Cons.prems have ok: "ptr_ok act i" and oks: "list_all (ptr_ok act) is"
    and len: "e + ?l + slots is \<le> length scr"
    by (simp_all add: slots_def)
  show ?case
  proof (cases "0 < ?l")
    case False
    then have l0: "?l = 0" by simp
    from Cons.IH [OF oks, of e scr] len l0 obtain is' scr' where
      r: "rebuild_loop act is e scr = Inr (is', e + slots is, scr')"
      and a: "length scr' = length scr" "take e scr' = take e scr" "list_all (ptr_ok scr') is'"
      by auto
    have h: "ptr_ok scr' (i\<lparr>pollfd_ptr := None\<rparr>)" by (simp add: ptr_ok_def)
    show ?thesis using l0 r a h by (simp add: slots_def)
  next
    case True
    define src where "src = (case pollfd_ptr i of Some off \<Rightarrow> take ?l (drop off act)
                             | None \<Rightarrow> replicate ?l zero_pollfd)"
    have srcl: "length src = ?l"
      using ok by (auto simp: src_def ptr_ok_def split: option.splits)
    have srce: "(case pollfd_ptr i of
                    Some off \<Rightarrow> (if length act < off + ?l then Inl MemFault
                                 else Inr (take ?l (drop off act)))
                  | None \<Rightarrow> Inr (replicate ?l zero_pollfd)) = (Inr src :: fault + pollfd list)"
      using ok by (auto simp: src_def ptr_ok_def split: option.splits)
    let ?scr1 = "take e scr @ src @ drop (e + ?l) scr"
    have l1: "length ?scr1 = length scr" using len srcl by simp
    from Cons.IH [OF oks, of "e + ?l" ?scr1] len l1 obtain is' scr' where
      r: "rebuild_loop act is (e + ?l) ?scr1 = Inr (is', e + ?l + slots is, scr')"
      and a: "length scr' = length scr" "take (e + ?l) scr' = take (e + ?l) ?scr1"
         "list_all (ptr_ok scr') is'"
      by auto
    have "take e (take (e + ?l) scr') = take e (take (e + ?l) ?scr1)" using a(2) by simp
    then have t: "take e scr' = take e scr" using len by (simp add: min_def)
    have h: "ptr_ok scr' (i\<lparr>pollfd_ptr := Some e\<rparr>)"
      using len a(1) by (simp add: ptr_ok_def)
    show ?thesis
      using True len r a(1,3) t srce h
      by (simp add: slots_def Let_def add.assoc)
  qed
qed

lemma rebuild_loop_head:
  assumes "rebuild_loop act (i # is) e scr = Inr (is', e', scr')" and "pollfd_ptr i = None"
    and "list_all (ptr_ok act) is" and "e + slots (i # is) \<le> length scr" and "0 < unat (n_pollfd i)"
  shows "take (unat (n_pollfd i)) (drop e scr') = replicate (unat (n_pollfd i)) zero_pollfd \<and>
         pollfd_ptr (hd is') = Some e \<and> same_but_ptr (hd is') i"
proof -
  let ?l = "unat (n_pollfd i)"
  let ?scr1 = "take e scr @ replicate ?l zero_pollfd @ drop (e + ?l) scr"
  have len: "e + ?l + slots is \<le> length scr" using assms(4) by (simp add: slots_def)
  then have l1: "e + ?l + slots is \<le> length ?scr1" by simp
  from rebuild_loop_ok [OF assms(3) l1] obtain is2 scr2 where
    r: "rebuild_loop act is (e + ?l) ?scr1 = Inr (is2, e + ?l + slots is, scr2)"
    and a: "take (e + ?l) scr2 = take (e + ?l) ?scr1" "length scr2 = length ?scr1"
    by auto
  from assms(1,2,5) len r have eq: "scr' = scr2" "is' = i\<lparr>pollfd_ptr := Some e\<rparr> # is2"
    by (auto simp: Let_def)
  have "take ?l (drop e (take (e + ?l) scr2)) = take ?l (drop e (take (e + ?l) ?scr1))"
    using a(1) by simp
  then have "take ?l (drop e scr2) = replicate ?l zero_pollfd"
    using len by (simp add: drop_take min_def)
  with eq show ?thesis by (simp add: same_but_ptr_def)
qed


definition scratch_for :: "rtpoll \<Rightarrow> pollfd list" where
  "scratch_for p =
     (if n_pollfd_alloc p < n_pollfd_used p
      then xrealloc (heap_junk p) (pollfd2 p) (unat (n_pollfd_used p * 2))
      else pollfd2 p)"

lemma length_scratch_for:
  "length (scratch_for p) =
     (if n_pollfd_alloc p < n_pollfd_used p then unat (n_pollfd_used p * 2)
      else length (pollfd2 p))"
  by (simp add: scratch_for_def xrealloc_def min_def)

lemma rtpoll_rebuild_unfold:
  assumes "rtpoll_rebuild p = Inr p'"
  shows "\<exists>e'. rebuild_loop (pollfd p) (items p) 0 (scratch_for p) = Inr (items p', e', pollfd p')"
  using assms
  by (auto simp: rtpoll_rebuild_def Let_def scratch_for_def split: if_splits sum.splits prod.splits)

lemma slots_same: "list_all2 same_but_ptr is' is \<Longrightarrow> slots is' = slots is"
  unfolding slots_def
  by (induction rule: list_all2_induct) (auto simp: same_but_ptr_def)

lemma rtpoll_rebuild_ok:
  assumes ok: "layout_ok p" and small: "unat (n_pollfd_used p) < 2 ^ 31"
  shows "\<exists>p'. rtpoll_rebuild p = Inr p' \<and> layout_ok p' \<and> \<not> rebuild_needed p'"
proof -
  let ?ra = "n_pollfd_alloc p < n_pollfd_used p"
  let ?scr0 = "if ?ra then xrealloc (heap_junk p) (pollfd2 p) (unat (n_pollfd_used p * 2)) else pollfd2 p"
  let ?alloc = "if ?ra then n_pollfd_used p * 2 else n_pollfd_alloc p"
  have dbl: "unat (n_pollfd_used p * 2) = 2 * unat (n_pollfd_used p)"
    using small by (simp add: unat_word_ariths)
  have l0: "length ?scr0 = unat ?alloc"
    using ok by (simp add: layout_ok_def xrealloc_def min_def)
  have big: "unat (n_pollfd_used p) \<le> unat ?alloc"
    using dbl by (auto simp: word_less_nat_alt)
  from ok have oks: "list_all (ptr_ok (pollfd p)) (items p)"
    and sl: "slots (items p) = unat (n_pollfd_used p)"
    by (simp_all add: layout_ok_def)
  have "0 + slots (items p) \<le> length ?scr0" using sl big l0 by simp
  from rebuild_loop_ok [OF oks this] obtain is' scr' where
    r: "rebuild_loop (pollfd p) (items p) 0 ?scr0 = Inr (is', slots (items p), scr')"
    and a: "length scr' = length ?scr0" "list_all (ptr_ok scr') is'"
    by auto
  have same: "slots is' = slots (items p)"
    using rebuild_loop_same [OF r] by (rule slots_same)
  have w: "(word_of_nat (slots (items p)) :: 32 word) = n_pollfd_used p"
    using sl by simp
  show ?thesis
  proof (cases ?ra)
    case True
    with r a same w sl l0 ok show ?thesis
      by (simp add: rtpoll_rebuild_def Let_def layout_ok_def xrealloc_def)
  next
    case False
    with r a same w sl l0 ok show ?thesis
      by (simp add: rtpoll_rebuild_def Let_def layout_ok_def)
  qed
qed

text \<open>
  C8. \<^verbatim>\<open>pa_rtpoll_item_new_fdsem\<close> on a poll set with a sound layout yields a new item with one
  slot. The slot holds the semaphore's descriptor, \<open>events\<close> is exactly \<open>POLLIN\<close> and
  \<open>revents\<close> is zero. The before-hook is \<^verbatim>\<open>fdsem_before\<close>, which returns what the semaphore's
  prepare-to-block operation returns for the handle; the after-hook is \<^verbatim>\<open>fdsem_after\<close>,
  which calls the semaphore's consume-after-wake operation on the handle.
\<close>

theorem fdsem_item:
  assumes ok: "layout_ok p" and small: "unat (n_pollfd_used p) < 2 ^ 31 - 1"
  shows "\<exists>p' i. pa_rtpoll_item_new_fdsem e p f = Inr (next_id p, p') \<and>
           find_item (next_id p) p' = Some i \<and> hd (items p') = i \<and>
           n_pollfd i = 1 \<and>
           slice_of i p' = [\<lparr>fd = pa_fdsem_get e f, events = POLLIN, revents = 0\<rparr>] \<and>
           before_cb i = Some FdsemBefore \<and> after_cb i = Some FdsemAfter \<and>
           userdata i = Some f \<and>
           fdsem_before e i = pa_fdsem_before_poll e (Some f) \<and>
           fdsem_after i p' = Inr (p'\<lparr>log := log p' @ [EvFdsemAfterPoll (Some f)]\<rparr>)"
proof -
  let ?x = "next_id p"
  let ?new = "\<lparr>iid = ?x, dead = False, pollfd_ptr = None, n_pollfd = 1,
               before_cb = None, after_cb = None, userdata = None\<rparr>"
  let ?p1 = "p\<lparr>items := ?new # items p, rebuild_needed := True,
               n_pollfd_used := n_pollfd_used p + 1, next_id := Suc ?x\<rparr>"
  have new: "pa_rtpoll_item_new p 1 = Inr (?x, ?p1)"
    by (simp add: pa_rtpoll_item_new_def Let_def)
  have u1: "unat (n_pollfd_used p + 1) = unat (n_pollfd_used p) + 1"
    using small by (simp add: unat_word_ariths)
  have ok1: "layout_ok ?p1"
    using ok u1 by (simp add: layout_ok_def slots_def ptr_ok_def)
  have small1: "unat (n_pollfd_used ?p1) < 2 ^ 31" using small u1 by simp
  from rtpoll_rebuild_ok [OF ok1 small1] obtain p2 where
    rb: "rtpoll_rebuild ?p1 = Inr p2" and ok2: "layout_ok p2"
    by blast
  define scr0 where "scr0 = scratch_for ?p1"
  from rtpoll_rebuild_unfold [OF rb] obtain e' where
    rl0: "rebuild_loop (pollfd ?p1) (items ?p1) 0 scr0 = Inr (items p2, e', pollfd p2)"
    unfolding scr0_def by blast
  have l00: "length scr0 = (if n_pollfd_alloc ?p1 < n_pollfd_used ?p1
                             then unat (n_pollfd_used ?p1 * 2) else length (pollfd2 ?p1))"
    unfolding scr0_def by (rule length_scratch_for)
  from rl0 have rl: "rebuild_loop (pollfd p) (?new # items p) 0 scr0 = Inr (items p2, e', pollfd p2)"
    by (simp del: rebuild_loop.simps)
  from l00 have l0: "length scr0 = (if n_pollfd_alloc p < n_pollfd_used p + 1
                            then unat ((n_pollfd_used p + 1) * 2) else length (pollfd2 p))"
    by simp
  have dbl: "unat ((n_pollfd_used p + 1) * 2) = 2 * (unat (n_pollfd_used p) + 1)"
    using small by (simp add: unat_word_ariths)
  have fits: "0 + slots (?new # items p) \<le> length scr0"
    using l0 ok u1 dbl by (auto simp: layout_ok_def slots_def word_less_nat_alt)
  have oks: "list_all (ptr_ok (pollfd p)) (items p)" using ok by (simp add: layout_ok_def)
  from rebuild_loop_head [OF rl _ oks fits]
  have z: "take 1 (drop 0 (pollfd p2)) = replicate 1 zero_pollfd"
    and hp: "pollfd_ptr (hd (items p2)) = Some 0" and hs: "same_but_ptr (hd (items p2)) ?new"
    by simp_all
  from rebuild_loop_same [OF rl] obtain i2 is2 where i2: "items p2 = i2 # is2"
    by (auto simp: list_all2_Cons2)
  from z obtain d ds where buf: "pollfd p2 = d # ds" and d: "d = zero_pollfd"
    by (cases "pollfd p2") auto
  have f2: "find_item ?x p2 = Some i2"
    using i2 hs by (simp add: find_item_def same_but_ptr_def)
  have g: "pa_rtpoll_item_get_pollfd ?x ?p1 = Inr ((Some 0, 1), p2)"
    using rb f2 i2 hp hs by (simp add: pa_rtpoll_item_get_pollfd_def same_but_ptr_def)
  show ?thesis
    using new g i2 hp hs buf d
    by (simp add: pa_rtpoll_item_new_fdsem_def adapter_item_def update_item_def find_item_def
                  same_but_ptr_def slice_of_def zero_pollfd_def fdsem_before_def fdsem_after_def
                  only_pollin_def)
qed


lemma layout_ok_fresh: "layout_ok (pa_rtpoll_new junk k)"
  by (simp add: layout_ok_def pa_rtpoll_new_def slots_def)

definition sample_ext :: ext where
  "sample_ext = \<lparr>pa_fdsem_get = (\<lambda>h. 7), pa_fdsem_before_poll = (\<lambda>u. 0),
                 pa_asyncmsgq_get_fd = (\<lambda>h. 8), pa_asyncmsgq_before_poll = (\<lambda>u. - 1)\<rparr>"

theorem fdsem_item_witness:
  "layout_ok (pa_rtpoll_new zero_pollfd False) \<and>
   unat (n_pollfd_used (pa_rtpoll_new zero_pollfd False)) < 2 ^ 31 - 1 \<and>
   (\<exists>p' i. pa_rtpoll_item_new_fdsem sample_ext (pa_rtpoll_new zero_pollfd False) 3 = Inr (0, p') \<and>
      find_item 0 p' = Some i \<and> n_pollfd i = 1 \<and>
      slice_of i p' = [\<lparr>fd = 7, events = POLLIN, revents = 0\<rparr>] \<and>
      before_cb i = Some FdsemBefore \<and> after_cb i = Some FdsemAfter \<and> userdata i = Some 3)"
proof -
  have ok: "layout_ok (pa_rtpoll_new zero_pollfd False)" by (rule layout_ok_fresh)
  have small: "unat (n_pollfd_used (pa_rtpoll_new zero_pollfd False)) < 2 ^ 31 - 1"
    by (simp add: pa_rtpoll_new_def)
  have n: "next_id (pa_rtpoll_new zero_pollfd False) = 0" by (simp add: pa_rtpoll_new_def)
  have g: "pa_fdsem_get sample_ext 3 = 7" by (simp add: sample_ext_def)
  from fdsem_item [OF ok small, of sample_ext 3] ok small n g show ?thesis by auto
qed


subsection \<open>The result of a cycle and the error code\<close>

text \<open>A cycle whose wait call fails with \<^verbatim>\<open>EBADF\<close>; \<open>u\<close> is what the uninitialised
  \<^verbatim>\<open>saved_errno\<close> holds.\<close>

definition EBADF :: int where
  "EBADF = 9"

definition failing_wait :: "int \<Rightarrow> cycle" where
  "failing_wait u = \<lparr>now_before = 0, now_after = 0, wait_ret = - 1, wait_errno = EBADF,
                     wait_revents = [], uninit_int = u\<rparr>"

lemmas run_eval_defs =
  pa_rtpoll_run_def idle_poll_set_def pa_rtpoll_new_def ids_def wait_step_def sys_wait_def
  calc_timeout_def timer_after_wait_def finish_def Let_def write_revents_def

text \<open>Built without \<^verbatim>\<open>HAVE_PPOLL\<close>, the cycle returns the negative result of the wait call and
  leaves its error code in \<open>errno\<close>.\<close>

lemma errno_kept_with_poll:
  "map_sum id (\<lambda>(r, p'). (r, errno p'))
     (pa_rtpoll_run \<lparr>have_ppoll = False, is_linux = True\<rparr> no_ext (failing_wait u) idle_poll_set)
   = Inr (- 1, EBADF)"
  by (simp add: run_eval_defs failing_wait_def EBADF_def EINTR_def EAGAIN_def)

text \<open>
  C4 at the input where the code departs from it. Built with \<^verbatim>\<open>HAVE_PPOLL\<close> on Linux, on a
  kernel where \<^verbatim>\<open>ppoll\<close> is used, the statement \<^verbatim>\<open>saved_errno = errno\<close> is the \<^verbatim>\<open>else\<close> branch
  of \<^verbatim>\<open>if (!p->dont_use_ppoll)\<close> and is not executed after \<^verbatim>\<open>ppoll\<close>. The cycle returns the
  negative result, and \<^verbatim>\<open>errno = saved_errno\<close> at the end overwrites the error code of the
  wait call with the uninitialised value.
\<close>

theorem errno_lost_with_ppoll:
  "map_sum id (\<lambda>(r, p'). (r, errno p'))
     (pa_rtpoll_run \<lparr>have_ppoll = True, is_linux = True\<rparr> no_ext (failing_wait u) idle_poll_set)
   = Inr (- 1, u)"
  by (simp add: run_eval_defs failing_wait_def EBADF_def EINTR_def EAGAIN_def)

subsection \<open>What a cycle adds to the log\<close>

text \<open>\<open>grows Q p p'\<close>: the log of \<open>p'\<close> is the log of \<open>p\<close> followed by events that all satisfy
  \<open>Q\<close>.\<close>

definition is_minor :: "event \<Rightarrow> bool" where
  "is_minor ev =
     (case ev of
        EvFreeCall x \<Rightarrow> True
      | EvSetAfterCall x \<Rightarrow> True
      | EvReclaim x \<Rightarrow> True
      | EvFdsemAfterPoll u \<Rightarrow> True
      | EvAsyncmsgqAfterPoll u \<Rightarrow> True
      | _ \<Rightarrow> False)"

definition grows :: "(event \<Rightarrow> bool) \<Rightarrow> rtpoll \<Rightarrow> rtpoll \<Rightarrow> bool" where
  "grows Q p p' \<longleftrightarrow> (\<exists>evs. log p' = log p @ evs \<and> list_all Q evs)"

lemma grows_refl: "grows Q p p"
  by (simp add: grows_def)

lemma grows_trans: "grows Q p p1 \<Longrightarrow> grows Q p1 p2 \<Longrightarrow> grows Q p p2"
  by (auto simp: grows_def)

lemma grows_mono: "grows Q p p' \<Longrightarrow> (\<And>ev. Q ev \<Longrightarrow> R ev) \<Longrightarrow> grows R p p'"
  by (auto simp: grows_def list_all_iff)

lemma grows_log_eq: "log p' = log p \<Longrightarrow> grows Q p p'"
  by (simp add: grows_def)

lemma grows_one: "log p' = log p @ [ev] \<Longrightarrow> Q ev \<Longrightarrow> grows Q p p'"
  by (simp add: grows_def)

lemma exec_action_grows: "exec_action a p = Inr p' \<Longrightarrow> grows is_minor p p'"
proof (cases a)
  case (AGetPollfd y)
  assume "exec_action a p = Inr p'"
  with AGetPollfd show ?thesis
    by (auto simp: pa_rtpoll_item_get_pollfd_def rtpoll_rebuild_same(3)
             split: option.splits sum.splits if_splits intro!: grows_log_eq)
qed (auto simp: pa_rtpoll_item_new_def pa_rtpoll_item_free_def rtpoll_item_destroy_def
       pa_rtpoll_item_set_before_callback_def pa_rtpoll_item_set_after_callback_def
       pa_rtpoll_item_set_userdata_def update_item_def grows_def is_minor_def Let_def
     split: option.splits if_splits)

lemma exec_script_grows: "exec_script as p = Inr p' \<Longrightarrow> grows is_minor p p'"
proof (induction as arbitrary: p)
  case Nil
  then show ?case by (simp add: grows_refl)
next
  case (Cons a as)
  then show ?case
    by (auto split: sum.splits intro: grows_trans exec_action_grows)
qed


definition nonneg_before :: "event \<Rightarrow> bool" where
  "nonneg_before ev = (case ev of EvBefore x v \<Rightarrow> 0 \<le> v | _ \<Rightarrow> False)"

definition clean_after :: "event \<Rightarrow> bool" where
  "clean_after ev = (case ev of EvAfter x sl \<Rightarrow> list_all (\<lambda>d. revents d = 0) sl | _ \<Rightarrow> False)"

definition any_after :: "event \<Rightarrow> bool" where
  "any_after ev = (case ev of EvAfter x sl \<Rightarrow> True | _ \<Rightarrow> False)"

lemma call_before_grows:
  "call_before e i c p = Inr (r, p') \<Longrightarrow>
   \<exists>evs. log p' = log p @ evs @ [EvBefore (iid i) r] \<and> list_all is_minor evs"
proof (cases c)
  case (BScript as v)
  assume "call_before e i c p = Inr (r, p')"
  with BScript obtain p1 where s: "exec_script as p = Inr p1"
    and p': "p' = p1\<lparr>log := log p1 @ [EvBefore (iid i) r]\<rparr>"
    by (auto simp: call_before_def split: sum.splits)
  from exec_script_grows [OF s] p' show ?thesis by (auto simp: grows_def)
qed (auto simp: call_before_def)

lemma call_after_grows:
  "call_after i c p = Inr p' \<Longrightarrow>
   \<exists>evs. log p' = log p @ EvAfter (iid i) (slice_of i p) # evs \<and> list_all is_minor evs"
proof (cases c)
  case (AScript as)
  assume "call_after i c p = Inr p'"
  with AScript have "exec_script as (p\<lparr>log := log p @ [EvAfter (iid i) (slice_of i p)]\<rparr>) = Inr p'"
    by (simp add: call_after_def Let_def)
  from exec_script_grows [OF this] show ?thesis by (auto simp: grows_def)
qed (auto simp: call_after_def fdsem_after_def asyncmsgq_after_def Let_def is_minor_def
      split: sum.splits)

lemma before_loop_grows:
  "before_loop e xs p = Inr (res, p') \<Longrightarrow>
   (case res of
      None \<Rightarrow> grows (\<lambda>ev. is_minor ev \<or> nonneg_before ev) p p'
    | Some b \<Rightarrow>
        (\<exists>evs v. log p' = log p @ evs @ [EvBefore b v] \<and> v < 0 \<and>
           list_all (\<lambda>ev. is_minor ev \<or> nonneg_before ev) evs))"
proof (induction xs arbitrary: p)
  case Nil
  then show ?case by (simp add: grows_refl)
next
  case (Cons x xs)
  from Cons.prems obtain i where f: "find_item x p = Some i"
    by (auto split: option.splits)
  then have ix: "iid i = x" by (auto simp: find_item_def dest: find_Some_iff [THEN iffD1])
  show ?case
  proof (cases "dead i \<or> before_cb i = None")
    case True
    with Cons.prems f have "before_loop e xs p = Inr (res, p')" by (auto split: if_splits)
    then show ?thesis by (rule Cons.IH)
  next
    case False
    then obtain c where c: "before_cb i = Some c" and d: "\<not> dead i" by auto
    from Cons.prems f c d obtain r p1 where cb: "call_before e i c p = Inr (r, p1)"
      by (auto split: sum.splits)
    from call_before_grows [OF cb] ix obtain evs where
      l1: "log p1 = log p @ evs @ [EvBefore x r]" and m1: "list_all is_minor evs"
      by auto
    show ?thesis
    proof (cases "r < 0")
      case True
      with Cons.prems f c d cb have "res = Some x" "p' = p1" by auto
      with l1 m1 True show ?thesis by (auto simp: list_all_iff)
    next
      case False
      with Cons.prems f c d cb have rest: "before_loop e xs p1 = Inr (res, p')" by auto
      have g1: "list_all (\<lambda>ev. is_minor ev \<or> nonneg_before ev) (evs @ [EvBefore x r])"
        using m1 False by (auto simp: list_all_iff nonneg_before_def)
      from Cons.IH [OF rest] l1 g1 show ?thesis
        by (cases res) (auto simp: grows_def)
    qed
  qed
qed

lemma clear_revents_slice:
  assumes "clear_revents i p = Inr p'"
  shows "log p' = log p \<and> list_all (\<lambda>d. revents d = 0) (slice_of i p') \<and>
         length (slice_of i p') = unat (n_pollfd i)"
proof (cases "unat (n_pollfd i) = 0")
  case True
  with assms show ?thesis
    by (auto simp: clear_revents_def slice_of_def Let_def split: option.splits)
next
  case False
  let ?n = "unat (n_pollfd i)"
  from assms False obtain off where off: "pollfd_ptr i = Some off"
    and fit: "off + ?n \<le> length (pollfd p)"
    and p': "p' = p\<lparr>pollfd := take off (pollfd p)
                         @ map (\<lambda>d. d\<lparr>revents := 0\<rparr>) (take ?n (drop off (pollfd p)))
                         @ drop (off + ?n) (pollfd p)\<rparr>"
    by (auto simp: clear_revents_def Let_def split: option.splits if_splits)
  have "drop off (pollfd p') = map (\<lambda>d. d\<lparr>revents := 0\<rparr>) (take ?n (drop off (pollfd p)))
                         @ drop (off + ?n) (pollfd p)"
    using fit by (simp add: p')
  then have "slice_of i p' = map (\<lambda>d. d\<lparr>revents := 0\<rparr>) (take ?n (drop off (pollfd p)))"
    using fit off by (simp add: slice_of_def)
  with fit p' show ?thesis by (simp add: list_all_iff)
qed

lemma after_loop_grows:
  "after_loop True xs p = Inr p' \<Longrightarrow> grows (\<lambda>ev. is_minor ev \<or> clean_after ev) p p'"
proof (induction xs arbitrary: p)
  case Nil
  then show ?case by (simp add: grows_refl)
next
  case (Cons x xs)
  from Cons.prems obtain i where f: "find_item x p = Some i"
    by (auto split: option.splits)
  show ?case
  proof (cases "dead i \<or> after_cb i = None")
    case True
    with Cons.prems f have "after_loop True xs p = Inr p'" by (auto split: if_splits)
    then show ?thesis by (rule Cons.IH)
  next
    case False
    then obtain c where c: "after_cb i = Some c" and d: "\<not> dead i" by auto
    from Cons.prems f c d obtain p1 p2 where cl: "clear_revents i p = Inr p1"
      and ca: "call_after i c p1 = Inr p2" and rest: "after_loop True xs p2 = Inr p'"
      by (auto split: sum.splits)
    from clear_revents_slice [OF cl] call_after_grows [OF ca]
    have "grows (\<lambda>ev. is_minor ev \<or> clean_after ev) p p2"
      by (auto simp: grows_def clean_after_def list_all_iff)
    with Cons.IH [OF rest] show ?thesis by (rule grows_trans [rotated])
  qed
qed


lemma rollback_loop_grows:
  "rollback_loop c p = Inr p' \<Longrightarrow> grows (\<lambda>ev. is_minor ev \<or> any_after ev) p p'"
proof (induction c p rule: rollback_loop.induct)
  case (1 p)
  then show ?case by (simp add: grows_refl)
next
  case (2 x p)
  from "2.prems" have run: "running p" by (auto split: if_splits)
  with "2.prems" obtain i where f: "find_item x p = Some i"
    by (auto split: option.splits)
  let ?step = "if dead i then Inr p
               else (case after_cb i of None \<Rightarrow> Inr p | Some c \<Rightarrow> call_after i c p)"
  from "2.prems" run f obtain p1 c where st: "?step = Inr p1"
    and pr: "prev_of x p1 = Inr c" and rest: "rollback_loop c p1 = Inr p'"
    by (auto split: sum.splits)
  have g1: "grows (\<lambda>ev. is_minor ev \<or> any_after ev) p p1"
  proof (cases "dead i \<or> after_cb i = None")
    case True
    with st have "p1 = p" by (auto split: if_splits)
    then show ?thesis by (simp add: grows_refl)
  next
    case False
    then obtain a where "after_cb i = Some a" "\<not> dead i" by auto
    with st have "call_after i a p = Inr p1" by simp
    from call_after_grows [OF this] show ?thesis
      by (auto simp: grows_def any_after_def list_all_iff)
  qed
  from run have nr: "\<not> \<not> running p" by simp
  from "2.IH" [OF nr f st pr rest] g1 show ?case by (rule grows_trans [rotated])
qed

lemma reap_loop_grows: "reap_loop xs p = Inr p' \<Longrightarrow> grows is_minor p p'"
proof (induction xs arbitrary: p)
  case Nil
  then show ?case by (simp add: grows_refl)
next
  case (Cons x xs)
  from Cons.prems obtain i where f: "find_item x p = Some i"
    by (auto split: option.splits)
  show ?case
  proof (cases "dead i")
    case False
    with Cons.prems f show ?thesis by (auto intro: Cons.IH)
  next
    case True
    with Cons.prems f obtain p1 where d: "rtpoll_item_destroy x p = Inr p1"
      and rest: "reap_loop xs p1 = Inr p'"
      by (auto split: sum.splits)
    from d have "grows is_minor p p1"
      by (auto simp: rtpoll_item_destroy_def grows_def is_minor_def split: option.splits)
    with Cons.IH [OF rest] show ?thesis by (rule grows_trans [rotated])
  qed
qed

lemma finish_grows: "finish r s p = Inr (r', p') \<Longrightarrow> grows is_minor p p'"
proof -
  assume a: "finish r s p = Inr (r', p')"
  show ?thesis
  proof (cases "scan_for_dead p")
    case False
    with a show ?thesis by (auto simp: finish_def Let_def grows_def)
  next
    case True
    with a obtain p2 where rl: "reap_loop (ids (p\<lparr>running := False\<rparr>))
                                  (p\<lparr>running := False, scan_for_dead := False\<rparr>) = Inr p2"
      and p': "p' = p2\<lparr>errno := s\<rparr>"
      by (auto simp: finish_def Let_def split: sum.splits)
    from reap_loop_grows [OF rl] p' show ?thesis by (auto simp: grows_def)
  qed
qed

definition is_wait :: "event \<Rightarrow> bool" where
  "is_wait ev = (case ev of EvWait b t \<Rightarrow> True | _ \<Rightarrow> False)"

lemma wait_step_grows: "wait_step b cy t p = (r, s, p') \<Longrightarrow> grows is_wait p p'"
  by (auto simp: wait_step_def sys_wait_def grows_def is_wait_def split: if_splits)

lemma wait_step_no_events:
  assumes "wait_step b cy t p = (r, s, p')"
    and "wait_ret cy = 0 \<or> (wait_ret cy < 0 \<and> (wait_errno cy = EAGAIN \<or> wait_errno cy = EINTR))"
  shows "r = 0 \<or> (r < 0 \<and> (errno p' = EAGAIN \<or> errno p' = EINTR))"
  using assms by (auto simp: wait_step_def sys_wait_def split: if_splits)

lemma timer_after_wait_same [simp]:
  "log (timer_after_wait now p) = log p" "errno (timer_after_wait now p) = errno p"
  "ids (timer_after_wait now p) = ids p" "items (timer_after_wait now p) = items p"
  by (simp_all add: timer_after_wait_def Let_def ids_def)

definition new_events :: "rtpoll \<Rightarrow> rtpoll \<Rightarrow> event list" where
  "new_events p p' = drop (length (log p)) (log p')"

subsection \<open>Readiness bits in a cycle without events\<close>

text \<open>
  C5, as the code has it. When the wait of a cycle timed out or was interrupted (\<^verbatim>\<open>EAGAIN\<close>,
  \<^verbatim>\<open>EINTR\<close>) and no before-hook vetoed the cycle, \<^verbatim>\<open>pa_rtpoll_run\<close> returns 0 and every
  after-hook it calls in that cycle finds zero readiness bits (\<open>revents\<close>) on every slot of
  its own item's slice when it is entered. Only an item that is live and has an after-hook
  is treated so: the dispatch loop of a cycle without events steps over a dead item and over
  an item without an after-hook and leaves the poll set as it is, the slots of that item
  included.
\<close>

theorem no_events_after_hooks_see_zero:
  assumes run: "pa_rtpoll_run b e cy p = Inr (r, p')"
    and noev: "wait_ret cy = 0 \<or>
               (wait_ret cy < 0 \<and> (wait_errno cy = EAGAIN \<or> wait_errno cy = EINTR))"
    and noabort: "\<forall>x v. EvBefore x v \<in> set (new_events p p') \<longrightarrow> 0 \<le> v"
  shows "r = 0 \<and>
         (\<forall>x sl. EvAfter x sl \<in> set (new_events p p') \<longrightarrow> (\<forall>d \<in> set sl. revents d = 0)) \<and>
         (\<forall>q y ys i. find_item y q = Some i \<and> (dead i \<or> after_cb i = None) \<longrightarrow>
            after_loop True (y # ys) q = after_loop True ys q)"
proof -
  have skip: "\<forall>q y ys i. find_item y q = Some i \<and> (dead i \<or> after_cb i = None) \<longrightarrow>
                after_loop True (y # ys) q = after_loop True ys q"
    by auto
  let ?p0 = "p\<lparr>running := True\<rparr>"
  from run have pre: "\<not> running p" "installed p" by (auto simp: pa_rtpoll_run_def split: if_splits)
  from run pre obtain res p1 where bl: "before_loop e (ids ?p0) ?p0 = Inr (res, p1)"
    by (auto simp: pa_rtpoll_run_def Let_def split: sum.splits)
  show ?thesis
  proof (cases res)
    case (Some x)
    from run pre bl Some obtain c p2 where pr: "prev_of x p1 = Inr c"
      and rb: "rollback_loop c p1 = Inr p2" and fin: "finish 0 (uninit_int cy) p2 = Inr (r, p')"
      by (auto simp: pa_rtpoll_run_def Let_def split: sum.splits)
    from before_loop_grows [OF bl] Some obtain evs v where
      l1: "log p1 = log p @ evs @ [EvBefore x v]" and v: "v < 0"
      by auto
    from rollback_loop_grows [OF rb] finish_grows [OF fin] l1
    have "EvBefore x v \<in> set (new_events p p')"
      by (auto simp: grows_def new_events_def)
    with noabort v have False by force
    then show ?thesis ..
  next
    case None
    from run pre bl None obtain p2 where
      rbd: "(if rebuild_needed p1 then rtpoll_rebuild p1 else Inr p1) = Inr p2"
      by (auto simp: pa_rtpoll_run_def Let_def split: sum.splits)
    obtain rw s p3 where ws: "wait_step b cy (calc_timeout cy p2) p2 = (rw, s, p3)"
      by (cases "wait_step b cy (calc_timeout cy p2) p2") auto
    let ?p4 = "timer_after_wait (now_after cy) p3"
    from wait_step_no_events [OF ws noev]
    have ne: "rw = 0 \<or> (rw < 0 \<and> (errno ?p4 = EAGAIN \<or> errno ?p4 = EINTR))" by simp
    from run pre bl None rbd ws ne obtain p5 where
      al: "after_loop True (ids ?p4) ?p4 = Inr p5" and fin: "finish 0 s p5 = Inr (r, p')"
      by (auto simp: pa_rtpoll_run_def Let_def split: sum.splits)
    let ?Q = "\<lambda>ev. is_minor ev \<or> nonneg_before ev \<or> is_wait ev \<or> clean_after ev"
    have g1: "grows ?Q p p1"
      using before_loop_grows [OF bl] None by (auto simp: grows_def list_all_iff)
    have l2: "log p2 = log p1"
      using rbd by (auto simp: rtpoll_rebuild_same(3) split: if_splits)
    have g3: "grows ?Q p2 ?p4"
      using wait_step_grows [OF ws] by (auto simp: grows_def list_all_iff)
    have g5: "grows ?Q ?p4 p5"
      using after_loop_grows [OF al] by (rule grows_mono) auto
    have g6: "grows ?Q p5 p'"
      using finish_grows [OF fin] by (rule grows_mono) auto
    have "grows ?Q p p'"
      using g1 l2 g3 g5 g6 by (auto simp: grows_def)
    then obtain evs where evs: "log p' = log p @ evs" and q: "list_all ?Q evs"
      by (auto simp: grows_def)
    have r0: "r = 0" using fin by (auto simp: finish_def Let_def split: sum.splits)
    have "\<forall>d \<in> set sl. revents d = 0" if "EvAfter x sl \<in> set evs" for x sl
    proof -
      from q that have "?Q (EvAfter x sl)" by (auto simp: list_all_iff)
      then show ?thesis
        by (auto simp: is_minor_def nonneg_before_def is_wait_def clean_after_def list_all_iff)
    qed
    with evs r0 have "r = 0 \<and> (\<forall>x sl. EvAfter x sl \<in> set (new_events p p') \<longrightarrow>
                        (\<forall>d \<in> set sl. revents d = 0))"
      by (simp add: new_events_def)
    with skip show ?thesis by (intro conjI) (erule conjunct1, erule conjunct2, assumption)
  qed
qed


text \<open>
  An example: two one-slot items, the newer one with an after-hook that does nothing. A first
  cycle finds both descriptors ready; \<open>stale_state\<close> is the poll set after it. A second cycle
  is interrupted by a signal and the kernel leaves the buffer as it is.
\<close>

definition poll_build :: build where
  "poll_build = \<lparr>have_ppoll = False, is_linux = True\<rparr>"

definition ready_cycle :: cycle where
  "ready_cycle = \<lparr>now_before = 0, now_after = 0, wait_ret = 2, wait_errno = 0,
                   wait_revents = [POLLIN, POLLIN], uninit_int = 0\<rparr>"

definition interrupted_cycle :: cycle where
  "interrupted_cycle = \<lparr>now_before = 0, now_after = 0, wait_ret = - 1, wait_errno = EINTR,
                         wait_revents = [], uninit_int = 0\<rparr>"

definition two_slots :: "fault + rtpoll" where
  "two_slots =
     (case pa_rtpoll_item_new idle_poll_set 1 of
        Inl f \<Rightarrow> Inl f
      | Inr (x0, p1) \<Rightarrow>
          (case pa_rtpoll_item_new p1 1 of
             Inl f \<Rightarrow> Inl f
           | Inr (x1, p2) \<Rightarrow>
               (case pa_rtpoll_item_set_after_callback x1 (Some (AScript [])) p2 of
                  Inl f \<Rightarrow> Inl f
                | Inr p3 \<Rightarrow>
                    (case pa_rtpoll_run poll_build no_ext ready_cycle p3 of
                       Inl f \<Rightarrow> Inl f
                     | Inr (r, p4) \<Rightarrow> Inr p4))))"

definition stale_state :: rtpoll where
  "stale_state =
     \<lparr>pollfd = \<lparr>fd = 0, events = 0, revents = POLLIN\<rparr> # \<lparr>fd = 0, events = 0, revents = POLLIN\<rparr>
               # replicate 30 zero_pollfd,
      pollfd2 = replicate 32 zero_pollfd,
      n_pollfd_alloc = 32, n_pollfd_used = 2,
      timer_enabled = False, next_elapse = 0, period = 0,
      scan_for_dead = False, running = False, installed = True, rebuild_needed = False,
      dont_use_ppoll = False,
      items = [\<lparr>iid = 1, dead = False, pollfd_ptr = Some 0, n_pollfd = 1,
                 before_cb = None, after_cb = Some (AScript []), userdata = None\<rparr>,
               \<lparr>iid = 0, dead = False, pollfd_ptr = Some 1, n_pollfd = 1,
                 before_cb = None, after_cb = None, userdata = None\<rparr>],
      errno = 0, next_id = 2, heap_junk = zero_pollfd,
      log = [EvSetAfterCall 1,
             EvWait [zero_pollfd, zero_pollfd] None,
             EvAfter 1 [\<lparr>fd = 0, events = 0, revents = POLLIN\<rparr>]]\<rparr>"

lemma two_slots_eval: "two_slots = Inr stale_state"
  by (simp add: two_slots_def stale_state_def run_eval_defs pa_rtpoll_item_new_def
                pa_rtpoll_item_set_after_callback_def update_item_def find_item_def
                rtpoll_rebuild_def poll_build_def ready_cycle_def call_after_def
                slice_of_def zero_pollfd_def POLLIN_def EINTR_def EAGAIN_def)

lemma stale_run_eval:
  "map_sum id (\<lambda>(r, p'). (r, new_events stale_state p', map revents (take 2 (pollfd p'))))
     (pa_rtpoll_run poll_build no_ext interrupted_cycle stale_state)
   = Inr (0, [EvWait [\<lparr>fd = 0, events = 0, revents = POLLIN\<rparr>,
                      \<lparr>fd = 0, events = 0, revents = POLLIN\<rparr>] None,
              EvAfter 1 [\<lparr>fd = 0, events = 0, revents = 0\<rparr>]],
          [0, POLLIN])"
  by (simp add: stale_state_def run_eval_defs poll_build_def interrupted_cycle_def
                call_after_def clear_revents_def new_events_def find_item_def
                slice_of_def zero_pollfd_def POLLIN_def EINTR_def EAGAIN_def)

text \<open>
  The same poll set with the older item hooked on both sides, its before-hook freeing the
  item itself: in the interrupted cycle the item is dead when the dispatch loop reaches it.
\<close>

definition stale_dead_state :: rtpoll where
  "stale_dead_state =
     stale_state\<lparr>items :=
       [\<lparr>iid = 1, dead = False, pollfd_ptr = Some 0, n_pollfd = 1,
          before_cb = None, after_cb = Some (AScript []), userdata = None\<rparr>,
        \<lparr>iid = 0, dead = False, pollfd_ptr = Some 1, n_pollfd = 1,
          before_cb = Some (BScript [AFree 0] 0), after_cb = Some (AScript []),
          userdata = None\<rparr>]\<rparr>"

lemma stale_dead_run_eval:
  "map_sum id (\<lambda>(r, p'). (r, new_events stale_dead_state p', map revents (take 2 (pollfd p'))))
     (pa_rtpoll_run poll_build no_ext interrupted_cycle stale_dead_state)
   = Inr (0, [EvFreeCall 0, EvBefore 0 0,
              EvWait [\<lparr>fd = 0, events = 0, revents = POLLIN\<rparr>,
                      \<lparr>fd = 0, events = 0, revents = POLLIN\<rparr>] None,
              EvAfter 1 [\<lparr>fd = 0, events = 0, revents = 0\<rparr>],
              EvReclaim 0],
          [0, POLLIN])"
  by (simp add: stale_dead_state_def stale_state_def run_eval_defs poll_build_def
                interrupted_cycle_def call_before_def call_after_def clear_revents_def
                new_events_def find_item_def update_item_def pa_rtpoll_item_free_def
                rtpoll_item_destroy_def slice_of_def zero_pollfd_def POLLIN_def EINTR_def
                EAGAIN_def)

theorem no_events_after_hooks_see_zero_witness:
  "(\<exists>p'. pa_rtpoll_run poll_build no_ext interrupted_cycle stale_state = Inr (0, p') \<and>
     wait_ret interrupted_cycle < 0 \<and> wait_errno interrupted_cycle = EINTR \<and>
     EvAfter 1 [\<lparr>fd = 0, events = 0, revents = 0\<rparr>] \<in> set (new_events stale_state p') \<and>
     revents \<lparr>fd = 0, events = 0, revents = 0 :: 16 word\<rparr> = 0 \<and>
     map revents (take 2 (pollfd p')) = [0, POLLIN]) \<and>
   (\<exists>i. find_item 0 stale_state = Some i \<and> \<not> dead i \<and> after_cb i = None) \<and>
   after_loop True [1, 0] stale_state = after_loop True [1] stale_state \<and>
   after_loop True [0] stale_state = Inr stale_state \<and>
   (\<exists>p'. pa_rtpoll_run poll_build no_ext interrupted_cycle stale_dead_state = Inr (0, p') \<and>
     new_events stale_dead_state p' =
       [EvFreeCall 0, EvBefore 0 0,
        EvWait [\<lparr>fd = 0, events = 0, revents = POLLIN\<rparr>,
                \<lparr>fd = 0, events = 0, revents = POLLIN\<rparr>] None,
        EvAfter 1 [\<lparr>fd = 0, events = 0, revents = 0\<rparr>],
        EvReclaim 0] \<and>
     map revents (take 2 (pollfd p')) = [0, POLLIN])"
proof -
  from stale_run_eval obtain p' where
    run: "pa_rtpoll_run poll_build no_ext interrupted_cycle stale_state = Inr (0, p')"
    and ev: "new_events stale_state p' =
               [EvWait [\<lparr>fd = 0, events = 0, revents = POLLIN\<rparr>,
                        \<lparr>fd = 0, events = 0, revents = POLLIN\<rparr>] None,
                EvAfter 1 [\<lparr>fd = 0, events = 0, revents = 0\<rparr>]]"
    and sl: "map revents (take 2 (pollfd p')) = [0, POLLIN]"
    by (cases "pa_rtpoll_run poll_build no_ext interrupted_cycle stale_state") auto
  have noev: "wait_ret interrupted_cycle = 0 \<or>
              (wait_ret interrupted_cycle < 0 \<and>
               (wait_errno interrupted_cycle = EAGAIN \<or> wait_errno interrupted_cycle = EINTR))"
    by (simp add: interrupted_cycle_def)
  have noabort: "\<forall>x v. EvBefore x v \<in> set (new_events stale_state p') \<longrightarrow> 0 \<le> v"
    by (simp add: ev)
  note main = no_events_after_hooks_see_zero [OF run noev noabort]
  have f0: "find_item 0 stale_state =
              Some \<lparr>iid = 0, dead = False, pollfd_ptr = Some 1, n_pollfd = 1,
                     before_cb = None, after_cb = None, userdata = None\<rparr>"
    by (simp add: stale_state_def find_item_def)
  from main have skip: "find_item y q = Some i \<and> (dead i \<or> after_cb i = None) \<longrightarrow>
                         after_loop True (y # ys) q = after_loop True ys q" for q y ys i
    by blast
  from skip [of 0 stale_state _ "[]"] f0
  have s0: "after_loop True [0] stale_state = Inr stale_state" by simp
  have s1: "after_loop True [1, 0] stale_state = after_loop True [1] stale_state"
    by (simp add: stale_state_def find_item_def call_after_def clear_revents_def
                  slice_of_def exec_script.simps)
  from stale_dead_run_eval obtain p'' where
    run2: "pa_rtpoll_run poll_build no_ext interrupted_cycle stale_dead_state = Inr (0, p'')"
    and ev2: "new_events stale_dead_state p'' =
       [EvFreeCall 0, EvBefore 0 0,
        EvWait [\<lparr>fd = 0, events = 0, revents = POLLIN\<rparr>,
                \<lparr>fd = 0, events = 0, revents = POLLIN\<rparr>] None,
        EvAfter 1 [\<lparr>fd = 0, events = 0, revents = 0\<rparr>],
        EvReclaim 0]"
    and sl2: "map revents (take 2 (pollfd p'')) = [0, POLLIN]"
    by (cases "pa_rtpoll_run poll_build no_ext interrupted_cycle stale_dead_state") auto
  have a: "\<exists>p'. pa_rtpoll_run poll_build no_ext interrupted_cycle stale_state = Inr (0, p') \<and>
     wait_ret interrupted_cycle < 0 \<and> wait_errno interrupted_cycle = EINTR \<and>
     EvAfter 1 [\<lparr>fd = 0, events = 0, revents = 0\<rparr>] \<in> set (new_events stale_state p') \<and>
     revents \<lparr>fd = 0, events = 0, revents = 0 :: 16 word\<rparr> = 0 \<and>
     map revents (take 2 (pollfd p')) = [0, POLLIN]"
    using main ev run sl by (simp add: interrupted_cycle_def)
  have b: "\<exists>i. find_item 0 stale_state = Some i \<and> \<not> dead i \<and> after_cb i = None"
    using f0 by simp
  have c: "\<exists>p'. pa_rtpoll_run poll_build no_ext interrupted_cycle stale_dead_state = Inr (0, p') \<and>
     new_events stale_dead_state p' =
       [EvFreeCall 0, EvBefore 0 0,
        EvWait [\<lparr>fd = 0, events = 0, revents = POLLIN\<rparr>,
                \<lparr>fd = 0, events = 0, revents = POLLIN\<rparr>] None,
        EvAfter 1 [\<lparr>fd = 0, events = 0, revents = 0\<rparr>],
        EvReclaim 0] \<and>
     map revents (take 2 (pollfd p')) = [0, POLLIN]"
    by (rule exI [of _ p'']) (simp only: run2 ev2 sl2 simp_thms)
  from a b s1 s0 c show ?thesis by (intro conjI)
qed

text \<open>
  C5 as stated (the readiness bits are cleared on every item's slots) does not hold: the
  slot of the item without an after-hook keeps its stale \<open>POLLIN\<close> through the interrupted
  cycle.
\<close>

theorem stale_bits_without_after_hook_counterexample:
  "map_sum id (\<lambda>(r, p'). map revents (take 2 (pollfd p')))
     (pa_rtpoll_run poll_build no_ext interrupted_cycle stale_state) \<noteq> Inr [0, 0]"
proof -
  have "map_sum id (\<lambda>(r, p'). map revents (take 2 (pollfd p')))
          (pa_rtpoll_run poll_build no_ext interrupted_cycle stale_state) = Inr [0, POLLIN]"
    using stale_run_eval
    by (cases "pa_rtpoll_run poll_build no_ext interrupted_cycle stale_state") auto
  then show ?thesis by (simp add: POLLIN_def)
qed


subsection \<open>Invariants of a running cycle\<close>

text \<open>
  \<open>view\<close> keeps of every item what no hook can change except through
  \<^verbatim>\<open>pa_rtpoll_item_free\<close>: identity, liveness and slot count. \<open>ids_ok\<close>: the items of the
  list have different identities, all allocated before. \<open>cycle_inv\<close> holds from
  \<^verbatim>\<open>p->running = 1\<close> up to the label \<^verbatim>\<open>finish\<close>: the used-slot count is the sum over all
  linked items, dead ones included, and a dead item implies \<open>scan_for_dead\<close>.
\<close>

definition view :: "rtpoll \<Rightarrow> (nat \<times> bool \<times> 32 word) list" where
  "view p = map (\<lambda>i. (iid i, dead i, n_pollfd i)) (items p)"

definition ids_ok :: "rtpoll \<Rightarrow> bool" where
  "ids_ok p \<longleftrightarrow> distinct (ids p) \<and> list_all (\<lambda>x. x < next_id p) (ids p)"

definition is_dead :: "nat \<Rightarrow> rtpoll \<Rightarrow> bool" where
  "is_dead x p \<longleftrightarrow> (\<exists>n. (x, True, n) \<in> set (view p))"

definition cycle_inv :: "rtpoll \<Rightarrow> bool" where
  "cycle_inv p \<longleftrightarrow>
     running p \<and> ids_ok p \<and>
     n_pollfd_used p = sum_list (map (\<lambda>v. snd (snd v)) (view p)) \<and>
     ((\<exists>x. is_dead x p) \<longrightarrow> scan_for_dead p)"

text \<open>
  \<open>cyc_step p p'\<close> relates two states of one running cycle: new items are in front of the
  list, in reverse order of creation; dead items stay dead; the log grows by events none of
  which releases an item record, and an item freed in between is dead.
\<close>

definition cyc_step :: "rtpoll \<Rightarrow> rtpoll \<Rightarrow> bool" where
  "cyc_step p p' \<longleftrightarrow>
     cycle_inv p' \<and> next_id p \<le> next_id p' \<and>
     ids p' = rev [next_id p ..< next_id p'] @ ids p \<and>
     (\<forall>x. is_dead x p \<longrightarrow> is_dead x p') \<and>
     (\<exists>evs. log p' = log p @ evs \<and> (\<forall>x. EvReclaim x \<notin> set evs) \<and>
        (\<forall>x. EvFreeCall x \<in> set evs \<longrightarrow> is_dead x p'))"

lemma ids_view: "ids p = map fst (view p)"
  by (simp add: ids_def view_def comp_def)

lemma cyc_step_refl: "cycle_inv p \<Longrightarrow> cyc_step p p"
  by (simp add: cyc_step_def)

lemma cyc_step_trans:
  assumes "cyc_step p p1" and "cyc_step p1 p2"
  shows "cyc_step p p2"
proof -
  from assms obtain evs1 evs2 where
    l1: "log p1 = log p @ evs1" "\<forall>x. EvReclaim x \<notin> set evs1"
        "\<forall>x. EvFreeCall x \<in> set evs1 \<longrightarrow> is_dead x p1"
    and l2: "log p2 = log p1 @ evs2" "\<forall>x. EvReclaim x \<notin> set evs2"
        "\<forall>x. EvFreeCall x \<in> set evs2 \<longrightarrow> is_dead x p2"
    unfolding cyc_step_def by blast
  from assms have n: "next_id p \<le> next_id p1" "next_id p1 \<le> next_id p2"
    and i: "ids p1 = rev [next_id p ..< next_id p1] @ ids p"
           "ids p2 = rev [next_id p1 ..< next_id p2] @ ids p1"
    and d: "\<forall>x. is_dead x p \<longrightarrow> is_dead x p1" "\<forall>x. is_dead x p1 \<longrightarrow> is_dead x p2"
    and c: "cycle_inv p2"
    unfolding cyc_step_def by blast+
  have "[next_id p ..< next_id p2] = [next_id p ..< next_id p1] @ [next_id p1 ..< next_id p2]"
    using n by (metis le_Suc_ex upt_add_eq_append)
  then have i2: "ids p2 = rev [next_id p ..< next_id p2] @ ids p"
    using i by simp
  have l: "log p2 = log p @ (evs1 @ evs2)" using l1 l2 by simp
  have r: "\<forall>x. EvReclaim x \<notin> set (evs1 @ evs2)" using l1 l2 by simp
  have f: "\<forall>x. EvFreeCall x \<in> set (evs1 @ evs2) \<longrightarrow> is_dead x p2"
    using l1 l2 d by auto
  show ?thesis
    unfolding cyc_step_def using c n i2 d l r f by (intro conjI exI [of _ "evs1 @ evs2"]) auto
qed

text \<open>A step that leaves the view and the flags alone.\<close>

lemma cyc_step_same_view:
  assumes "cycle_inv p" and "view p' = view p" and "running p' = running p"
    and "scan_for_dead p' = scan_for_dead p" and "next_id p' = next_id p"
    and "n_pollfd_used p' = n_pollfd_used p"
    and "log p' = log p @ evs" and "\<forall>x. EvReclaim x \<notin> set evs" and "\<forall>x. EvFreeCall x \<notin> set evs"
  shows "cyc_step p p'"
  using assms
  unfolding cyc_step_def cycle_inv_def ids_ok_def is_dead_def ids_view
  by auto

lemma view_update_first:
  "(\<And>j. iid (f j) = iid j \<and> dead (f j) = dead j \<and> n_pollfd (f j) = n_pollfd j) \<Longrightarrow>
   map (\<lambda>i. (iid i, dead i, n_pollfd i)) (update_first x f is)
     = map (\<lambda>i. (iid i, dead i, n_pollfd i)) is"
  by (induction "is") auto

lemma view_same_but_ptr:
  "list_all2 same_but_ptr is' is \<Longrightarrow>
   map (\<lambda>i. (iid i, dead i, n_pollfd i)) is' = map (\<lambda>i. (iid i, dead i, n_pollfd i)) is"
  by (induction rule: list_all2_induct) (auto simp: same_but_ptr_def)

lemma rebuild_cyc_step:
  "cycle_inv p \<Longrightarrow> rtpoll_rebuild p = Inr p' \<Longrightarrow> cyc_step p p'"
  by (rule cyc_step_same_view [where evs = "[]"])
     (simp_all add: rtpoll_rebuild_same view_def view_same_but_ptr)


lemma sum_view: "sum_list (map (\<lambda>v. snd (snd v)) (view p)) = sum_list (map n_pollfd (items p))"
  by (simp add: view_def comp_def)

lemma is_dead_iff: "is_dead x p \<longleftrightarrow> (\<exists>i \<in> set (items p). iid i = x \<and> dead i)"
  by (auto simp: is_dead_def view_def)

lemma update_first_ids:
  "(\<And>j. iid (f j) = iid j) \<Longrightarrow> map iid (update_first y f is) = map iid is"
  by (induction "is") auto

lemma update_first_counts:
  "(\<And>j. n_pollfd (f j) = n_pollfd j) \<Longrightarrow> map n_pollfd (update_first y f is) = map n_pollfd is"
  by (induction "is") auto

lemma update_first_keeps_dead:
  "i \<in> set is \<Longrightarrow> dead i \<Longrightarrow>
   \<exists>j \<in> set (update_first y (\<lambda>j. j\<lparr>dead := True\<rparr>) is). iid j = iid i \<and> dead j"
  by (induction "is") auto

lemma update_first_marks:
  "find (\<lambda>j. iid j = y) is = Some i \<Longrightarrow>
   \<exists>j \<in> set (update_first y (\<lambda>j. j\<lparr>dead := True\<rparr>) is). iid j = y \<and> dead j"
  by (induction "is") (auto split: if_splits)

lemma item_new_cyc_step:
  assumes inv: "cycle_inv p" and new: "pa_rtpoll_item_new p n = Inr (x, p')"
  shows "cyc_step p p'"
proof -
  from new have p': "p' = p\<lparr>items := \<lparr>iid = next_id p, dead = False, pollfd_ptr = None,
        n_pollfd = n, before_cb = None, after_cb = None, userdata = None\<rparr> # items p,
        rebuild_needed := True, n_pollfd_used := n_pollfd_used p + n,
        next_id := Suc (next_id p)\<rparr>"
    by (auto simp: pa_rtpoll_item_new_def Let_def split: if_splits)
  from inv have fresh: "next_id p \<notin> set (ids p)"
    by (auto simp: cycle_inv_def ids_ok_def list_all_iff)
  have c: "cycle_inv p'"
    using inv fresh
    by (auto simp: p' cycle_inv_def ids_ok_def ids_def sum_view is_dead_iff list_all_iff
             intro: less_SucI)
  have d: "\<forall>y. is_dead y p \<longrightarrow> is_dead y p'"
    by (auto simp: p' is_dead_iff)
  show ?thesis
    unfolding cyc_step_def using c d
    by (intro conjI exI [of _ "[]"]) (simp_all add: p' ids_def)
qed

lemma item_free_cyc_step:
  assumes inv: "cycle_inv p" and free: "pa_rtpoll_item_free y p = Inr p'"
  shows "cyc_step p p'"
proof -
  from inv have run: "running p" by (simp add: cycle_inv_def)
  with free obtain i where f: "find (\<lambda>j. iid j = y) (items p) = Some i"
    and p': "p' = p\<lparr>items := update_first y (\<lambda>j. j\<lparr>dead := True\<rparr>) (items p),
                    scan_for_dead := True, log := log p @ [EvFreeCall y]\<rparr>"
    by (auto simp: pa_rtpoll_item_free_def update_item_def find_item_def split: option.splits)
  have i: "ids p' = ids p" by (simp add: p' ids_def update_first_ids)
  have c: "cycle_inv p'"
    using inv i
    by (simp add: cycle_inv_def ids_ok_def sum_view)
       (simp add: p' update_first_counts)
  have d: "\<forall>x. is_dead x p \<longrightarrow> is_dead x p'"
    using update_first_keeps_dead [of _ "items p" y] by (auto simp: p' is_dead_iff)
  have m: "is_dead y p'"
    using update_first_marks [OF f] by (auto simp: p' is_dead_iff)
  show ?thesis
    unfolding cyc_step_def using c d m i
    by (intro conjI exI [of _ "[EvFreeCall y]"]) (simp_all add: p')
qed

lemma exec_action_cyc_step:
  assumes inv: "cycle_inv p" and ex: "exec_action a p = Inr p'"
  shows "cyc_step p p'"
proof (cases a)
  case (ANew n)
  with ex obtain x where "pa_rtpoll_item_new p n = Inr (x, p')" by (auto split: sum.splits)
  with inv show ?thesis by (rule item_new_cyc_step)
next
  case (AFree y)
  with ex inv show ?thesis by (auto intro: item_free_cyc_step)
next
  case (ASetBefore y c)
  with ex show ?thesis
    by (intro cyc_step_same_view [OF inv, where evs = "[]"])
       (auto simp: pa_rtpoll_item_set_before_callback_def update_item_def view_def
                   view_update_first split: option.splits)
next
  case (ASetAfter y c)
  with ex show ?thesis
    by (intro cyc_step_same_view [OF inv, where evs = "[EvSetAfterCall y]"])
       (auto simp: pa_rtpoll_item_set_after_callback_def update_item_def view_def
                   view_update_first split: option.splits)
next
  case (ASetUserdata y u)
  with ex show ?thesis
    by (intro cyc_step_same_view [OF inv, where evs = "[]"])
       (auto simp: pa_rtpoll_item_set_userdata_def update_item_def view_def
                   view_update_first split: option.splits)
next
  case (AGetPollfd y)
  with ex have "(if rebuild_needed p then rtpoll_rebuild p else Inr p) = Inr p'"
    by (auto simp: pa_rtpoll_item_get_pollfd_def split: sum.splits option.splits)
  with inv show ?thesis
    by (auto split: if_splits intro: rebuild_cyc_step cyc_step_refl)
qed

lemma cyc_step_inv: "cyc_step p p' \<Longrightarrow> cycle_inv p'"
  by (simp add: cyc_step_def)

lemma exec_script_cyc_step:
  "cycle_inv p \<Longrightarrow> exec_script as p = Inr p' \<Longrightarrow> cyc_step p p'"
proof (induction as arbitrary: p)
  case Nil
  then show ?case by (simp add: cyc_step_refl)
next
  case (Cons a as)
  from Cons.prems obtain p1 where a: "exec_action a p = Inr p1" and s: "exec_script as p1 = Inr p'"
    by (auto split: sum.splits)
  from exec_action_cyc_step [OF Cons.prems(1) a] have s1: "cyc_step p p1" .
  from Cons.IH [OF cyc_step_inv [OF s1] s] s1 show ?case by (rule cyc_step_trans [rotated])
qed

text \<open>A step that only appends hook or wait events to the log.\<close>

lemma cyc_step_log_only:
  assumes "cycle_inv p" and "p' = p\<lparr>log := log p @ evs\<rparr>"
    and "\<forall>x. EvReclaim x \<notin> set evs" and "\<forall>x. EvFreeCall x \<notin> set evs"
  shows "cyc_step p p'"
  using assms(1) by (rule cyc_step_same_view [where evs = evs]) (simp_all add: assms view_def)

lemma call_before_cyc_step:
  assumes inv: "cycle_inv p" and cb: "call_before e i c p = Inr (r, p')"
  shows "cyc_step p p'"
proof (cases c)
  case FdsemBefore
  with cb inv show ?thesis by (auto simp: call_before_def intro!: cyc_step_log_only)
next
  case AsyncmsgqBefore
  with cb inv show ?thesis by (auto simp: call_before_def intro!: cyc_step_log_only)
next
  case (BScript as v)
  with cb obtain p1 where s: "exec_script as p = Inr p1"
    and p': "p' = p1\<lparr>log := log p1 @ [EvBefore (iid i) r]\<rparr>"
    by (auto simp: call_before_def split: sum.splits)
  from exec_script_cyc_step [OF inv s] have s1: "cyc_step p p1" .
  have "cyc_step p1 p'"
    using cyc_step_inv [OF s1] p' by (rule cyc_step_log_only) simp_all
  with s1 show ?thesis by (rule cyc_step_trans)
qed

lemma call_after_cyc_step:
  assumes inv: "cycle_inv p" and ca: "call_after i c p = Inr p'"
  shows "cyc_step p p'"
proof -
  let ?p0 = "p\<lparr>log := log p @ [EvAfter (iid i) (slice_of i p)]\<rparr>"
  have "?p0 = p\<lparr>log := log p @ [EvAfter (iid i) (slice_of i p)]\<rparr>" by simp
  with inv have s0: "cyc_step p ?p0" by (rule cyc_step_log_only) simp_all
  have "cyc_step ?p0 p'"
  proof (cases c)
    case FdsemAfter
    with ca have "p' = ?p0\<lparr>log := log ?p0 @ [EvFdsemAfterPoll (userdata i)]\<rparr>"
      by (auto simp: call_after_def fdsem_after_def Let_def split: sum.splits)
    with cyc_step_inv [OF s0] show ?thesis by (rule cyc_step_log_only) simp_all
  next
    case AsyncmsgqAfter
    with ca have "p' = ?p0\<lparr>log := log ?p0 @ [EvAsyncmsgqAfterPoll (userdata i)]\<rparr>"
      by (auto simp: call_after_def asyncmsgq_after_def Let_def split: sum.splits)
    with cyc_step_inv [OF s0] show ?thesis by (rule cyc_step_log_only) simp_all
  next
    case (AScript as)
    with ca have "exec_script as ?p0 = Inr p'" by (simp add: call_after_def Let_def)
    with cyc_step_inv [OF s0] show ?thesis by (rule exec_script_cyc_step)
  qed
  with s0 show ?thesis by (rule cyc_step_trans)
qed


lemma before_loop_cyc_step:
  "cycle_inv p \<Longrightarrow> before_loop e xs p = Inr (res, p') \<Longrightarrow> cyc_step p p'"
proof (induction xs arbitrary: p)
  case Nil
  then show ?case by (simp add: cyc_step_refl)
next
  case (Cons x xs)
  from Cons.prems obtain i where f: "find_item x p = Some i"
    by (auto split: option.splits)
  show ?case
  proof (cases "dead i \<or> before_cb i = None")
    case True
    with Cons.prems f have "before_loop e xs p = Inr (res, p')" by (auto split: if_splits)
    with Cons.prems(1) show ?thesis by (rule Cons.IH)
  next
    case False
    then obtain c where c: "before_cb i = Some c" and d: "\<not> dead i" by auto
    from Cons.prems f c d obtain r p1 where cb: "call_before e i c p = Inr (r, p1)"
      by (auto split: sum.splits)
    from call_before_cyc_step [OF Cons.prems(1) cb] have s1: "cyc_step p p1" .
    show ?thesis
    proof (cases "r < 0")
      case True
      with Cons.prems f c d cb s1 show ?thesis by auto
    next
      case False
      with Cons.prems f c d cb have "before_loop e xs p1 = Inr (res, p')" by auto
      from Cons.IH [OF cyc_step_inv [OF s1] this] s1 show ?thesis
        by (rule cyc_step_trans [rotated])
    qed
  qed
qed

lemma clear_revents_cyc_step:
  "cycle_inv p \<Longrightarrow> clear_revents i p = Inr p' \<Longrightarrow> cyc_step p p'"
  by (rule cyc_step_same_view [where evs = "[]"])
     (auto simp: clear_revents_def Let_def view_def split: if_splits option.splits)

lemma after_loop_cyc_step:
  "cycle_inv p \<Longrightarrow> after_loop ne xs p = Inr p' \<Longrightarrow> cyc_step p p'"
proof (induction xs arbitrary: p)
  case Nil
  then show ?case by (simp add: cyc_step_refl)
next
  case (Cons x xs)
  from Cons.prems obtain i where f: "find_item x p = Some i"
    by (auto split: option.splits)
  show ?case
  proof (cases "dead i \<or> after_cb i = None")
    case True
    with Cons.prems f have "after_loop ne xs p = Inr p'" by (auto split: if_splits)
    with Cons.prems(1) show ?thesis by (rule Cons.IH)
  next
    case False
    then obtain c where c: "after_cb i = Some c" and d: "\<not> dead i" by auto
    from Cons.prems f c d obtain p1 p2 where
      cl: "(if ne then clear_revents i p else Inr p) = Inr p1"
      and ca: "call_after i c p1 = Inr p2" and rest: "after_loop ne xs p2 = Inr p'"
      by (auto split: sum.splits)
    have s1: "cyc_step p p1"
      using cl Cons.prems(1)
      by (auto split: if_splits intro: clear_revents_cyc_step cyc_step_refl)
    from call_after_cyc_step [OF cyc_step_inv [OF s1] ca] have s2: "cyc_step p1 p2" .
    from Cons.IH [OF cyc_step_inv [OF s2] rest] have s3: "cyc_step p2 p'" .
    from s1 s2 s3 show ?thesis by (blast intro: cyc_step_trans)
  qed
qed

lemma rollback_loop_cyc_step:
  "cycle_inv p \<Longrightarrow> rollback_loop c p = Inr p' \<Longrightarrow> cyc_step p p'"
proof (induction c p rule: rollback_loop.induct)
  case (1 p)
  then show ?case by (simp add: cyc_step_refl)
next
  case (2 x p)
  from "2.prems" have run: "running p" by (simp add: cycle_inv_def)
  with "2.prems" obtain i where f: "find_item x p = Some i"
    by (auto split: option.splits)
  let ?step = "if dead i then Inr p
               else (case after_cb i of None \<Rightarrow> Inr p | Some c \<Rightarrow> call_after i c p)"
  from "2.prems" run f obtain p1 c where st: "?step = Inr p1"
    and pr: "prev_of x p1 = Inr c" and rest: "rollback_loop c p1 = Inr p'"
    by (auto split: sum.splits)
  have s1: "cyc_step p p1"
  proof (cases "dead i \<or> after_cb i = None")
    case True
    with st have "p1 = p" by (auto split: if_splits)
    with "2.prems"(1) show ?thesis by (simp add: cyc_step_refl)
  next
    case False
    then obtain a where "after_cb i = Some a" "\<not> dead i" by auto
    with st have "call_after i a p = Inr p1" by simp
    with "2.prems"(1) show ?thesis by (rule call_after_cyc_step)
  qed
  from run have nr: "\<not> \<not> running p" by simp
  from "2.IH" [OF nr f st pr cyc_step_inv [OF s1] rest] s1 show ?case
    by (rule cyc_step_trans [rotated])
qed

lemma wait_step_cyc_step:
  "cycle_inv p \<Longrightarrow> wait_step b cy t p = (r, s, p') \<Longrightarrow>
   cyc_step p (timer_after_wait now p')"
proof -
  assume inv: "cycle_inv p" and w: "wait_step b cy t p = (r, s, p')"
  from w obtain evs where l: "log p' = log p @ evs" and e: "list_all is_wait evs"
    using wait_step_grows [OF w] by (auto simp: grows_def)
  from w have same: "items p' = items p" "running p' = running p"
    "scan_for_dead p' = scan_for_dead p" "next_id p' = next_id p"
    "n_pollfd_used p' = n_pollfd_used p"
    by (auto simp: wait_step_def sys_wait_def split: if_splits)
  have t: "running (timer_after_wait now p') = running p'"
    "scan_for_dead (timer_after_wait now p') = scan_for_dead p'"
    "next_id (timer_after_wait now p') = next_id p'"
    "n_pollfd_used (timer_after_wait now p') = n_pollfd_used p'"
    by (simp_all add: timer_after_wait_def Let_def)
  show ?thesis
    using inv
  proof (rule cyc_step_same_view [where evs = evs])
    show "\<forall>x. EvReclaim x \<notin> set evs" using e by (auto simp: list_all_iff is_wait_def)
    show "\<forall>x. EvFreeCall x \<notin> set evs" using e by (auto simp: list_all_iff is_wait_def)
  qed (simp_all add: same t l view_def)
qed


lemma find_unique:
  "distinct (map iid is) \<Longrightarrow> find (\<lambda>j. iid j = x) is = Some i \<Longrightarrow>
   j \<in> set is \<Longrightarrow> iid j = x \<Longrightarrow> j = i"
  by (induction "is") (auto split: if_splits)

lemma find_member:
  "x \<in> set (map iid is) \<Longrightarrow> \<exists>i. find (\<lambda>j. iid j = x) is = Some i \<and> i \<in> set is \<and> iid i = x"
  by (induction "is") auto

lemma remove_first_filter:
  "distinct (map iid is) \<Longrightarrow> remove_first x is = filter (\<lambda>j. iid j \<noteq> x) is"
proof (induction "is")
  case Nil
  then show ?case by simp
next
  case (Cons a "is")
  show ?case
  proof (cases "iid a = x")
    case True
    with Cons.prems have "x \<notin> iid ` set is" by simp
    then have "\<forall>j \<in> set is. iid j \<noteq> x" by blast
    then have "filter (\<lambda>j. iid j \<noteq> x) is = is" by (simp add: filter_id_conv)
    with True show ?thesis by simp
  next
    case False
    with Cons show ?thesis by simp
  qed
qed

lemma reap_loop_result:
  assumes "distinct (ids p)" and "n_pollfd_used p = sum_list (map n_pollfd (items p))"
    and "distinct xs" and "set xs \<subseteq> set (ids p)" and "reap_loop xs p = Inr p'"
  shows "items p' = filter (\<lambda>i. \<not> (dead i \<and> iid i \<in> set xs)) (items p) \<and>
         n_pollfd_used p' = sum_list (map n_pollfd (items p')) \<and>
         log p' = log p @ map EvReclaim (filter (\<lambda>x. is_dead x p) xs) \<and>
         running p' = running p \<and> next_id p' = next_id p \<and>
         scan_for_dead p' = scan_for_dead p"
  using assms
proof (induction xs arbitrary: p)
  case Nil
  then show ?case by simp
next
  case (Cons x xs)
  from Cons.prems(4) have xin: "x \<in> set (map iid (items p))" by (simp add: ids_def)
  from find_member [OF xin] obtain i where f: "find (\<lambda>j. iid j = x) (items p) = Some i"
    and im: "i \<in> set (items p)" and ix: "iid i = x"
    by blast
  from Cons.prems(1) have dis: "distinct (map iid (items p))" by (simp add: ids_def)
  have uniq: "j = i" if "j \<in> set (items p)" "iid j = x" for j
    using find_unique [OF dis f that] .
  show ?case
  proof (cases "dead i")
    case False
    have nd: "\<not> is_dead x p" using False uniq by (auto simp: is_dead_iff)
    from Cons.prems f False have rest: "reap_loop xs p = Inr p'"
      by (simp add: find_item_def)
    from Cons.prems have "distinct xs" "set xs \<subseteq> set (ids p)" by auto
    from Cons.IH [OF Cons.prems(1,2) this rest]
    have ih: "items p' = filter (\<lambda>i. \<not> (dead i \<and> iid i \<in> set xs)) (items p)"
      and others: "n_pollfd_used p' = sum_list (map n_pollfd (items p'))"
        "log p' = log p @ map EvReclaim (filter (\<lambda>x. is_dead x p) xs)"
        "running p' = running p" "next_id p' = next_id p" "scan_for_dead p' = scan_for_dead p"
      by auto
    have "filter (\<lambda>i. \<not> (dead i \<and> iid i \<in> set xs)) (items p)
            = filter (\<lambda>i. \<not> (dead i \<and> iid i \<in> set (x # xs))) (items p)"
      using False uniq by (intro filter_cong) auto
    with ih others nd show ?thesis by simp
  next
    case True
    have d: "is_dead x p" using True im ix by (auto simp: is_dead_iff)
    let ?p1 = "p\<lparr>items := remove_first x (items p),
                  n_pollfd_used := n_pollfd_used p - n_pollfd i,
                  log := log p @ [EvReclaim x], rebuild_needed := True\<rparr>"
    from Cons.prems f True have rest: "reap_loop xs ?p1 = Inr p'"
      by (simp add: find_item_def rtpoll_item_destroy_def)
    have i1: "items ?p1 = filter (\<lambda>j. iid j \<noteq> x) (items p)"
      using dis by (simp add: remove_first_filter)
    have d1: "distinct (ids ?p1)"
      using dis by (simp add: ids_def i1 distinct_map_filter)
    have s1: "n_pollfd_used ?p1 = sum_list (map n_pollfd (items ?p1))"
      using Cons.prems(2) remove_first_sum [OF f] by simp
    from Cons.prems have dx: "distinct xs" and xn: "x \<notin> set xs" by auto
    have sub: "set xs \<subseteq> set (ids ?p1)"
    proof
      fix y assume y: "y \<in> set xs"
      with Cons.prems(4) obtain j where "j \<in> set (items p)" "iid j = y"
        by (auto simp: ids_def)
      moreover from y xn have "y \<noteq> x" by auto
      ultimately show "y \<in> set (ids ?p1)" by (force simp: ids_def i1)
    qed
    have dd: "is_dead y ?p1 = is_dead y p" if "y \<in> set xs" for y
      using that xn by (auto simp: is_dead_iff i1)
    from Cons.IH [OF d1 s1 dx sub rest]
    have ih: "items p' = filter (\<lambda>i. \<not> (dead i \<and> iid i \<in> set xs)) (items ?p1)"
      and others: "n_pollfd_used p' = sum_list (map n_pollfd (items p'))"
        "log p' = log ?p1 @ map EvReclaim (filter (\<lambda>x. is_dead x ?p1) xs)"
        "running p' = running ?p1" "next_id p' = next_id ?p1"
        "scan_for_dead p' = scan_for_dead ?p1"
      by auto
    have "filter (\<lambda>i. \<not> (dead i \<and> iid i \<in> set xs)) (filter (\<lambda>j. iid j \<noteq> x) (items p))
            = filter (\<lambda>i. \<not> (dead i \<and> iid i \<in> set (x # xs))) (items p)"
      using True uniq by (auto simp: filter_filter intro!: filter_cong)
    moreover have "filter (\<lambda>x. is_dead x ?p1) xs = filter (\<lambda>x. is_dead x p) xs"
      using dd by (intro filter_cong) auto
    ultimately show ?thesis using ih others d i1 by simp
  qed
qed

lemma finish_result:
  assumes inv: "cycle_inv p" and fin: "finish r s p = Inr (r', p')"
  shows "r' = r \<and> errno p' = s \<and> quiescent p' \<and> ids_ok p' \<and>
         items p' = filter (\<lambda>i. \<not> dead i) (items p) \<and>
         log p' = log p @ map EvReclaim (filter (\<lambda>x. is_dead x p) (ids p)) \<and>
         next_id p' = next_id p"
proof (cases "scan_for_dead p")
  case False
  with inv have nd: "\<forall>i \<in> set (items p). \<not> dead i"
    by (auto simp: cycle_inv_def is_dead_iff)
  then have "filter (\<lambda>i. \<not> dead i) (items p) = items p"
    and "filter (\<lambda>x. is_dead x p) (ids p) = []"
    by (auto simp: filter_id_conv filter_empty_conv is_dead_iff)
  with fin False inv nd show ?thesis
    by (auto simp: finish_def Let_def quiescent_def cycle_inv_def ids_ok_def ids_def sum_view
                   list_all_iff)
next
  case True
  let ?p1 = "p\<lparr>running := False, scan_for_dead := False\<rparr>"
  from fin True obtain p2 where rl: "reap_loop (ids p) ?p1 = Inr p2"
    and p': "p' = p2\<lparr>errno := s\<rparr>" and r': "r' = r"
    by (auto simp: finish_def Let_def ids_def split: sum.splits)
  from inv have dis: "distinct (ids ?p1)"
    and sm: "n_pollfd_used ?p1 = sum_list (map n_pollfd (items ?p1))"
    and lt: "list_all (\<lambda>x. x < next_id p) (ids p)"
    by (simp_all add: cycle_inv_def ids_ok_def ids_def sum_view)
  have dx: "distinct (ids p)" using dis by (simp add: ids_def)
  have sub: "set (ids p) \<subseteq> set (ids ?p1)" by (simp add: ids_def)
  from reap_loop_result [OF dis sm dx sub rl]
  have it: "items p2 = filter (\<lambda>i. \<not> (dead i \<and> iid i \<in> set (ids p))) (items p)"
    and u: "n_pollfd_used p2 = sum_list (map n_pollfd (items p2))"
    and l: "log p2 = log p @ map EvReclaim (filter (\<lambda>x. is_dead x ?p1) (ids p))"
    and o: "running p2 = False" "next_id p2 = next_id p"
    by simp_all
  have it': "items p2 = filter (\<lambda>i. \<not> dead i) (items p)"
    unfolding it by (intro filter_cong) (auto simp: ids_def)
  have dd: "filter (\<lambda>x. is_dead x ?p1) (ids p) = filter (\<lambda>x. is_dead x p) (ids p)"
    by (intro filter_cong) (auto simp: is_dead_iff)
  have ok: "ids_ok p'"
    using dx lt by (auto simp: p' ids_ok_def ids_def it' o distinct_map_filter list_all_iff)
  have q: "quiescent p'"
    using u o by (simp add: p' quiescent_def it' list_all_iff)
  show ?thesis using r' q ok it' l dd o by (simp add: p')
qed


lemma quiescent_cycle_inv:
  "quiescent p \<Longrightarrow> ids_ok p \<Longrightarrow> cycle_inv (p\<lparr>running := True\<rparr>)"
  by (auto simp: quiescent_def cycle_inv_def ids_ok_def ids_def sum_view is_dead_iff list_all_iff)

text \<open>The state a cycle is in when it reaches the label \<^verbatim>\<open>finish\<close>.\<close>

lemma run_reaches_finish:
  assumes q: "quiescent p" and ok: "ids_ok p" and run: "pa_rtpoll_run b e cy p = Inr (r, p')"
  shows "\<exists>q r0 s. cyc_step (p\<lparr>running := True\<rparr>) q \<and> finish r0 s q = Inr (r, p')"
proof -
  let ?p0 = "p\<lparr>running := True\<rparr>"
  have inv0: "cycle_inv ?p0" using q ok by (rule quiescent_cycle_inv)
  from run have pre: "\<not> running p" "installed p" by (auto simp: pa_rtpoll_run_def split: if_splits)
  from run pre obtain res p1 where bl: "before_loop e (ids ?p0) ?p0 = Inr (res, p1)"
    by (auto simp: pa_rtpoll_run_def Let_def split: sum.splits)
  from before_loop_cyc_step [OF inv0 bl] have s1: "cyc_step ?p0 p1" .
  show ?thesis
  proof (cases res)
    case (Some x)
    from run pre bl Some obtain c p2 where pr: "prev_of x p1 = Inr c"
      and rb: "rollback_loop c p1 = Inr p2" and fin: "finish 0 (uninit_int cy) p2 = Inr (r, p')"
      by (auto simp: pa_rtpoll_run_def Let_def split: sum.splits)
    from rollback_loop_cyc_step [OF cyc_step_inv [OF s1] rb] s1 have "cyc_step ?p0 p2"
      by (rule cyc_step_trans [rotated])
    with fin show ?thesis by blast
  next
    case None
    from run pre bl None obtain p2 where
      rbd: "(if rebuild_needed p1 then rtpoll_rebuild p1 else Inr p1) = Inr p2"
      by (auto simp: pa_rtpoll_run_def Let_def split: sum.splits)
    obtain rw s p3 where ws: "wait_step b cy (calc_timeout cy p2) p2 = (rw, s, p3)"
      by (cases "wait_step b cy (calc_timeout cy p2) p2") auto
    let ?p4 = "timer_after_wait (now_after cy) p3"
    let ?ne = "rw = 0 \<or> (rw < 0 \<and> (errno ?p4 = EAGAIN \<or> errno ?p4 = EINTR))"
    from run pre bl None rbd ws obtain p5 where
      al: "after_loop ?ne (ids ?p4) ?p4 = Inr p5"
      and fin: "finish (if ?ne then 0 else rw) s p5 = Inr (r, p')"
      by (auto simp: pa_rtpoll_run_def Let_def split: sum.splits)
    have s2: "cyc_step p1 p2"
      using rbd cyc_step_inv [OF s1]
      by (auto split: if_splits intro: rebuild_cyc_step cyc_step_refl)
    from wait_step_cyc_step [OF cyc_step_inv [OF s2] ws] have s4: "cyc_step p2 ?p4" .
    from after_loop_cyc_step [OF cyc_step_inv [OF s4] al] have s5: "cyc_step ?p4 p5" .
    from s1 s2 s4 s5 have "cyc_step ?p0 p5" by (blast intro: cyc_step_trans)
    with fin show ?thesis by blast
  qed
qed

subsection \<open>Deferred reclamation\<close>

text \<open>
  C7. A cycle that starts between cycles (\<open>quiescent\<close>, \<open>ids_ok\<close>) and returns adds to the log
  first the events of its hooks and its wait, among them the calls to
  \<^verbatim>\<open>pa_rtpoll_item_free\<close>, with no release of an item record among them, and then, from the
  reaping loop at its end, the releases. Every item that was freed during the cycle is
  released there; when \<^verbatim>\<open>pa_rtpoll_run\<close> returns it is no longer in the item list, no item
  of the list is dead, and the used-slot count is the sum of the slot counts of the items
  that remain (\<open>quiescent\<close>).
\<close>

theorem deferred_reclaim:
  assumes q: "quiescent p" and ok: "ids_ok p" and run: "pa_rtpoll_run b e cy p = Inr (r, p')"
  shows "\<exists>T1 T2. new_events p p' = T1 @ map EvReclaim T2 \<and>
           (\<forall>x. EvReclaim x \<notin> set T1) \<and>
           (\<forall>x. EvFreeCall x \<in> set T1 \<longrightarrow> x \<in> set T2) \<and>
           (\<forall>x \<in> set T2. x \<notin> set (ids p')) \<and>
           quiescent p' \<and> ids_ok p'"
proof -
  from run_reaches_finish [OF q ok run] obtain pf r0 s where
    st: "cyc_step (p\<lparr>running := True\<rparr>) pf" and fin: "finish r0 s pf = Inr (r, p')"
    by blast
  from st obtain evs where inv: "cycle_inv pf" and l: "log pf = log p @ evs"
    and nr: "\<forall>x. EvReclaim x \<notin> set evs" and fd: "\<forall>x. EvFreeCall x \<in> set evs \<longrightarrow> is_dead x pf"
    by (auto simp: cyc_step_def)
  from finish_result [OF inv fin]
  have qp: "quiescent p'" and okp: "ids_ok p'"
    and it: "items p' = filter (\<lambda>i. \<not> dead i) (items pf)"
    and lp: "log p' = log pf @ map EvReclaim (filter (\<lambda>x. is_dead x pf) (ids pf))"
    by simp_all
  let ?T2 = "filter (\<lambda>x. is_dead x pf) (ids pf)"
  from inv have dis: "distinct (map iid (items pf))" by (simp add: cycle_inv_def ids_ok_def ids_def)
  have a: "new_events p p' = evs @ map EvReclaim ?T2" using l lp by (simp add: new_events_def)
  have b: "x \<in> set ?T2" if "EvFreeCall x \<in> set evs" for x
    using fd that by (auto simp: is_dead_iff ids_def)
  have c: "x \<notin> set (ids p')" if "x \<in> set ?T2" for x
  proof
    assume "x \<in> set (ids p')"
    then obtain j where j: "j \<in> set (items pf)" "\<not> dead j" "iid j = x"
      by (auto simp: ids_def it)
    from that obtain i where i: "i \<in> set (items pf)" "dead i" "iid i = x"
      by (auto simp: is_dead_iff)
    from dis i j have "i = j" by (auto simp: distinct_map inj_on_def)
    with i j show False by simp
  qed
  show ?thesis using a nr b c qp okp by (intro exI [of _ evs] exI [of _ ?T2]) auto
qed


text \<open>An item whose before-hook frees the item itself.\<close>

definition self_freeing :: rtpoll where
  "self_freeing =
     idle_poll_set
       \<lparr>items := [\<lparr>iid = 0, dead = False, pollfd_ptr = None, n_pollfd = 1,
                   before_cb = Some (BScript [AFree 0] 0), after_cb = None, userdata = None\<rparr>],
        n_pollfd_used := 1, next_id := 1, rebuild_needed := True\<rparr>"

lemma self_freeing_eval:
  "map_sum id (\<lambda>(r, p'). (r, new_events self_freeing p', ids p', n_pollfd_used p'))
     (pa_rtpoll_run poll_build no_ext (quiet_cycle 0) self_freeing)
   = Inr (0, [EvFreeCall 0, EvBefore 0 0, EvWait [zero_pollfd] None, EvReclaim 0], [], 0)"
  by (simp add: self_freeing_def run_eval_defs poll_build_def quiet_cycle_def
                call_before_def pa_rtpoll_item_free_def update_item_def rtpoll_rebuild_def
                rtpoll_item_destroy_def new_events_def find_item_def)

theorem deferred_reclaim_witness:
  "quiescent self_freeing \<and> ids_ok self_freeing \<and>
   (\<exists>p'. pa_rtpoll_run poll_build no_ext (quiet_cycle 0) self_freeing = Inr (0, p') \<and>
      new_events self_freeing p'
        = [EvFreeCall 0, EvBefore 0 0, EvWait [zero_pollfd] None] @ map EvReclaim [0] \<and>
      ids p' = [] \<and> n_pollfd_used p' = 0 \<and> quiescent p')"
proof -
  have q: "quiescent self_freeing"
    by (simp add: self_freeing_def quiescent_def idle_poll_set_def pa_rtpoll_new_def)
  have ok: "ids_ok self_freeing"
    by (simp add: self_freeing_def ids_ok_def ids_def idle_poll_set_def pa_rtpoll_new_def)
  from self_freeing_eval obtain p' where
    run: "pa_rtpoll_run poll_build no_ext (quiet_cycle 0) self_freeing = Inr (0, p')"
    and ev: "new_events self_freeing p'
               = [EvFreeCall 0, EvBefore 0 0, EvWait [zero_pollfd] None, EvReclaim 0]"
    and rest: "ids p' = []" "n_pollfd_used p' = 0"
    by (cases "pa_rtpoll_run poll_build no_ext (quiet_cycle 0) self_freeing") auto
  from deferred_reclaim [OF q ok run] have "quiescent p'" by blast
  with q ok run ev rest show ?thesis by auto
qed


subsection \<open>The rollback after a veto\<close>

text \<open>
  \<open>after_ids evs\<close> are the items whose after-hooks are entered in \<open>evs\<close>, in order.
  \<open>upto_ids c p\<close> are the identities from the head of the list down to the item \<open>c\<close>.
\<close>

fun after_ids :: "event list \<Rightarrow> nat list" where
  "after_ids [] = []"
| "after_ids (EvAfter x sl # evs) = x # after_ids evs"
| "after_ids (ev # evs) = after_ids evs"

definition upto_ids :: "nat option \<Rightarrow> rtpoll \<Rightarrow> nat list" where
  "upto_ids c p = (case c of None \<Rightarrow> [] | Some x \<Rightarrow> takeWhile (\<lambda>y. y \<noteq> x) (ids p) @ [x])"

lemma after_ids_append: "after_ids (xs @ ys) = after_ids xs @ after_ids ys"
  by (induction xs rule: after_ids.induct) auto

lemma after_ids_none: "list_all (\<lambda>ev. \<not> any_after ev) evs \<Longrightarrow> after_ids evs = []"
  by (induction evs rule: after_ids.induct) (auto simp: any_after_def)

lemma minor_not_after: "is_minor ev \<Longrightarrow> \<not> any_after ev"
  by (auto simp: is_minor_def any_after_def split: event.splits)

lemma after_ids_minor: "list_all is_minor evs \<Longrightarrow> after_ids evs = []"
  by (rule after_ids_none) (auto simp: list_all_iff minor_not_after)

lemma takeWhile_skip:
  "x \<notin> set new \<Longrightarrow> takeWhile (\<lambda>y. y \<noteq> x) (new @ ys) = new @ takeWhile (\<lambda>y. y \<noteq> x) ys"
  by (induction new) auto

lemma takeWhile_last:
  assumes "distinct (A @ rest)" and "A \<noteq> []"
  shows "takeWhile (\<lambda>z. z \<noteq> last A) (A @ rest) @ [last A] = A"
proof -
  from assms(2) obtain B y where A: "A = B @ [y]" by (metis rev_exhaust)
  with assms(1) have "y \<notin> set B" by auto
  then have "takeWhile (\<lambda>z. z \<noteq> y) (B @ y # rest) = B"
    by (simp add: takeWhile_skip)
  with A show ?thesis by simp
qed

lemma ids_ahead: "map iid (ahead x p) = takeWhile (\<lambda>y. y \<noteq> x) (ids p)"
  by (simp add: ahead_def ids_def takeWhile_map comp_def)

lemma prev_upto:
  assumes dis: "distinct (ids p)" and pr: "prev_of x p = Inr c"
  shows "upto_ids c p = takeWhile (\<lambda>y. y \<noteq> x) (ids p)"
proof (cases "ahead x p = []")
  case True
  with pr have "c = None" by (auto simp: prev_of_def split: option.splits)
  with True ids_ahead [of x p] show ?thesis by (simp add: upto_ids_def)
next
  case False
  let ?A = "takeWhile (\<lambda>y. y \<noteq> x) (ids p)"
  from False pr have c: "c = Some (iid (last (ahead x p)))"
    by (auto simp: prev_of_def split: option.splits)
  have ne: "?A \<noteq> []" using False ids_ahead [of x p] by auto
  have l: "iid (last (ahead x p)) = last ?A"
    using False by (simp add: ids_ahead [symmetric] last_map)
  have "ids p = ?A @ dropWhile (\<lambda>y. y \<noteq> x) (ids p)" by simp
  with dis have "distinct (?A @ dropWhile (\<lambda>y. y \<noteq> x) (ids p))" by simp
  from takeWhile_last [OF this ne] c l show ?thesis
    by (simp add: upto_ids_def)
qed

lemma takeWhile_behind_new:
  assumes "ids p' = new @ ids p" and "x \<in> set (ids p)" and "x \<notin> set new"
  shows "takeWhile (\<lambda>y. y \<noteq> x) (ids p') = new @ takeWhile (\<lambda>y. y \<noteq> x) (ids p)"
  using assms by (simp add: takeWhile_skip)

lemma find_item_ids: "find_item x p = Some i \<Longrightarrow> x \<in> set (ids p) \<and> iid i = x \<and> i \<in> set (items p)"
  by (auto simp: find_item_def ids_def find_Some_iff)

lemma cyc_step_new_ids:
  assumes "cycle_inv p" and "cyc_step p p'" and "x \<in> set (ids p)"
  shows "takeWhile (\<lambda>y. y \<noteq> x) (ids p')
           = rev [next_id p ..< next_id p'] @ takeWhile (\<lambda>y. y \<noteq> x) (ids p)"
proof -
  from assms(1,3) have "x < next_id p" by (auto simp: cycle_inv_def ids_ok_def list_all_iff)
  then have "x \<notin> set (rev [next_id p ..< next_id p'])" by simp
  moreover from assms(2) have "ids p' = rev [next_id p ..< next_id p'] @ ids p"
    by (simp add: cyc_step_def)
  ultimately show ?thesis using assms(3) by (rule takeWhile_behind_new [rotated 2])
qed

lemma rollback_subseq:
  "cycle_inv q \<Longrightarrow> rollback_loop c q = Inr q' \<Longrightarrow>
   \<exists>evs. log q' = log q @ evs \<and>
     subseq (after_ids evs) (rev (upto_ids c q) @ [next_id q ..< next_id q'])"
proof (induction c q rule: rollback_loop.induct)
  case (1 p)
  then show ?case by (simp add: upto_ids_def)
next
  case (2 x p)
  from "2.prems" have run: "running p" by (simp add: cycle_inv_def)
  with "2.prems" obtain i where f: "find_item x p = Some i"
    by (auto split: option.splits)
  let ?step = "if dead i then Inr p
               else (case after_cb i of None \<Rightarrow> Inr p | Some c \<Rightarrow> call_after i c p)"
  from "2.prems" run f obtain p1 c where st: "?step = Inr p1"
    and pr: "prev_of x p1 = Inr c" and rest: "rollback_loop c p1 = Inr q'"
    by (auto split: sum.splits)
  from find_item_ids [OF f] have xin: "x \<in> set (ids p)" and ix: "iid i = x" by auto
  have "\<exists>evs1. log p1 = log p @ evs1 \<and> cyc_step p p1 \<and> subseq (after_ids evs1) [x]"
  proof (cases "dead i \<or> after_cb i = None")
    case True
    with st have "p1 = p" by (auto split: if_splits)
    with "2.prems"(1) show ?thesis by (simp add: cyc_step_refl)
  next
    case False
    then obtain a where "after_cb i = Some a" "\<not> dead i" by auto
    with st have ca: "call_after i a p = Inr p1" by simp
    from call_after_grows [OF ca] ix obtain evs where
      "log p1 = log p @ EvAfter x (slice_of i p) # evs" "list_all is_minor evs"
      by auto
    with call_after_cyc_step [OF "2.prems"(1) ca] show ?thesis
      by (auto simp: after_ids_minor)
  qed
  then obtain evs1 where l1: "log p1 = log p @ evs1" and s1: "cyc_step p p1"
    and a1: "subseq (after_ids evs1) [x]"
    by blast
  from run have nr: "\<not> \<not> running p" by simp
  from "2.IH" [OF nr f st pr cyc_step_inv [OF s1] rest] obtain evs2 where
    l2: "log q' = log p1 @ evs2"
    and a2: "subseq (after_ids evs2) (rev (upto_ids c p1) @ [next_id p1 ..< next_id q'])"
    by blast
  from cyc_step_inv [OF s1] have dis1: "distinct (ids p1)" by (simp add: cycle_inv_def ids_ok_def)
  have u: "upto_ids c p1 = rev [next_id p ..< next_id p1] @ takeWhile (\<lambda>y. y \<noteq> x) (ids p)"
    using prev_upto [OF dis1 pr] cyc_step_new_ids [OF "2.prems"(1) s1 xin] by simp
  from rollback_loop_cyc_step [OF cyc_step_inv [OF s1] rest] have n2: "next_id p1 \<le> next_id q'"
    by (simp add: cyc_step_def)
  from s1 have n1: "next_id p \<le> next_id p1" by (simp add: cyc_step_def)
  have up: "[next_id p ..< next_id q'] = [next_id p ..< next_id p1] @ [next_id p1 ..< next_id q']"
    using n1 n2 by (metis le_Suc_ex upt_add_eq_append)
  have a2': "subseq (after_ids evs2)
               (rev (takeWhile (\<lambda>y. y \<noteq> x) (ids p)) @ [next_id p ..< next_id q'])"
    using a2 by (simp add: u up)
  have "subseq (after_ids evs1 @ after_ids evs2)
          ([x] @ rev (takeWhile (\<lambda>y. y \<noteq> x) (ids p)) @ [next_id p ..< next_id q'])"
    using a1 a2' by (rule list_emb_append_mono)
  then show ?case
    using l1 l2 by (intro exI [of _ "evs1 @ evs2"]) (simp add: after_ids_append upto_ids_def)
qed


text \<open>
  The rollback in the words of the specification (walk over the items, invoke the after-hook
  of the live items that have one), over a given sequence of items: the after-hook of an
  item of the sequence is called when the item is live and has an after-hook at the moment
  the walk reaches it, and the item is passed over otherwise. The result is the items whose
  after-hooks were called, in the order of the calls, and the state after the walk.
\<close>

fun rollback_spec :: "nat list \<Rightarrow> rtpoll \<Rightarrow> fault + (nat list \<times> rtpoll)" where
  "rollback_spec [] p = Inr ([], p)"
| "rollback_spec (y # ys) p =
     (case find_item y p of
        None \<Rightarrow> Inl MemFault
      | Some i \<Rightarrow>
          (case (if dead i then None else after_cb i) of
             None \<Rightarrow> rollback_spec ys p
           | Some c \<Rightarrow>
               (case call_after i c p of
                  Inl f \<Rightarrow> Inl f
                | Inr p1 \<Rightarrow>
                    (case rollback_spec ys p1 of
                       Inl f \<Rightarrow> Inl f
                     | Inr (cs, p') \<Rightarrow> Inr (y # cs, p')))))"

text \<open>
  The loop of the code, which follows \<^verbatim>\<open>i->prev\<close> in the list as the hooks leave it, is this
  walk over the items in front of the start item, towards the head, followed by the items
  created while the loop and the hooks before it ran.
\<close>

lemma rollback_loop_is_walk:
  "cycle_inv q \<Longrightarrow> rollback_loop c q = Inr q' \<Longrightarrow> log q' = log q @ evs \<Longrightarrow>
   rollback_spec (rev (upto_ids c q) @ [next_id q ..< next_id q']) q = Inr (after_ids evs, q')"
proof (induction c q arbitrary: evs rule: rollback_loop.induct)
  case (1 p)
  then show ?case by (simp add: upto_ids_def)
next
  case (2 x p)
  note inv = "2.prems"(1) and rb = "2.prems"(2) and l = "2.prems"(3)
  from inv have run: "running p" by (simp add: cycle_inv_def)
  with rb obtain i where f: "find_item x p = Some i"
    by (auto split: option.splits)
  let ?step = "if dead i then Inr p
               else (case after_cb i of None \<Rightarrow> Inr p | Some c \<Rightarrow> call_after i c p)"
  from rb run f obtain p1 c where st: "?step = Inr p1"
    and pr: "prev_of x p1 = Inr c" and rest: "rollback_loop c p1 = Inr q'"
    by (auto split: sum.splits)
  from find_item_ids [OF f] have xin: "x \<in> set (ids p)" and ix: "iid i = x" by auto
  from rollback_loop_grows [OF rest] obtain evs2 where l2: "log q' = log p1 @ evs2"
    by (auto simp: grows_def)
  have s1: "cyc_step p p1"
  proof (cases "dead i \<or> after_cb i = None")
    case True
    with st have "p1 = p" by (auto split: if_splits)
    with inv show ?thesis by (simp add: cyc_step_refl)
  next
    case False
    then obtain a where "after_cb i = Some a" "\<not> dead i" by auto
    with st have "call_after i a p = Inr p1" by simp
    with inv show ?thesis by (rule call_after_cyc_step)
  qed
  from run have nr: "\<not> \<not> running p" by simp
  from "2.IH" [OF nr f st pr cyc_step_inv [OF s1] rest l2]
  have ih: "rollback_spec (rev (upto_ids c p1) @ [next_id p1 ..< next_id q']) p1
              = Inr (after_ids evs2, q')" .
  from cyc_step_inv [OF s1] have dis1: "distinct (ids p1)" by (simp add: cycle_inv_def ids_ok_def)
  have u: "upto_ids c p1 = rev [next_id p ..< next_id p1] @ takeWhile (\<lambda>y. y \<noteq> x) (ids p)"
    using prev_upto [OF dis1 pr] cyc_step_new_ids [OF inv s1 xin] by simp
  from rollback_loop_cyc_step [OF cyc_step_inv [OF s1] rest] have n2: "next_id p1 \<le> next_id q'"
    by (simp add: cyc_step_def)
  from s1 have n1: "next_id p \<le> next_id p1" by (simp add: cyc_step_def)
  have up: "[next_id p ..< next_id q'] = [next_id p ..< next_id p1] @ [next_id p1 ..< next_id q']"
    using n1 n2 by (metis le_Suc_ex upt_add_eq_append)
  have ih': "rollback_spec (rev (takeWhile (\<lambda>y. y \<noteq> x) (ids p)) @ [next_id p ..< next_id q']) p1
               = Inr (after_ids evs2, q')"
    using ih by (simp add: u up)
  have g: "rev (upto_ids (Some x) p) @ [next_id p ..< next_id q']
             = x # rev (takeWhile (\<lambda>y. y \<noteq> x) (ids p)) @ [next_id p ..< next_id q']"
    by (simp add: upto_ids_def)
  show ?case
  proof (cases "dead i \<or> after_cb i = None")
    case True
    with st have e: "p1 = p" by (auto split: if_splits)
    with l l2 have "evs = evs2" by simp
    with True f ih' e show ?thesis unfolding g by auto
  next
    case False
    then obtain a where a: "after_cb i = Some a" "\<not> dead i" by auto
    with st have ca: "call_after i a p = Inr p1" by simp
    from call_after_grows [OF ca] ix obtain evs0 where
      l0: "log p1 = log p @ EvAfter x (slice_of i p) # evs0" and m0: "list_all is_minor evs0"
      by auto
    from l l0 l2 have "evs = EvAfter x (slice_of i p) # evs0 @ evs2" by simp
    then have "after_ids evs = x # after_ids evs2"
      using m0 by (simp add: after_ids_append after_ids_minor)
    with a f ca ih' show ?thesis unfolding g by simp
  qed
qed


text \<open>
  \<open>quiet_step p p'\<close>: between two states of a running cycle, when no item was created and
  no after-hook was set, the after-hooks are the same and the dead items are those that were
  dead before or have been freed in between.
\<close>

definition hooks_view :: "rtpoll \<Rightarrow> (nat \<times> acb option) list" where
  "hooks_view p = map (\<lambda>i. (iid i, after_cb i)) (items p)"

definition has_after :: "nat \<Rightarrow> rtpoll \<Rightarrow> bool" where
  "has_after x p \<longleftrightarrow> (\<exists>c. (x, Some c) \<in> set (hooks_view p))"

definition quiet_step :: "rtpoll \<Rightarrow> rtpoll \<Rightarrow> bool" where
  "quiet_step p p' \<longleftrightarrow>
     (\<exists>evs. log p' = log p @ evs \<and> next_id p \<le> next_id p' \<and>
        (next_id p' = next_id p \<and> (\<forall>x. EvSetAfterCall x \<notin> set evs) \<longrightarrow>
           hooks_view p' = hooks_view p \<and>
           (\<forall>x. is_dead x p' \<longleftrightarrow> is_dead x p \<or> EvFreeCall x \<in> set evs)))"

lemma quiet_step_refl: "quiet_step p p"
  by (auto simp: quiet_step_def)

lemma quiet_step_trans:
  assumes "quiet_step p p1" and "quiet_step p1 p2"
  shows "quiet_step p p2"
proof -
  from assms(1) obtain evs1 where l1: "log p1 = log p @ evs1" and n1: "next_id p \<le> next_id p1"
    and h1: "next_id p1 = next_id p \<and> (\<forall>x. EvSetAfterCall x \<notin> set evs1) \<longrightarrow>
               hooks_view p1 = hooks_view p \<and>
               (\<forall>x. is_dead x p1 \<longleftrightarrow> is_dead x p \<or> EvFreeCall x \<in> set evs1)"
    unfolding quiet_step_def by blast
  from assms(2) obtain evs2 where l2: "log p2 = log p1 @ evs2" and n2: "next_id p1 \<le> next_id p2"
    and h2: "next_id p2 = next_id p1 \<and> (\<forall>x. EvSetAfterCall x \<notin> set evs2) \<longrightarrow>
               hooks_view p2 = hooks_view p1 \<and>
               (\<forall>x. is_dead x p2 \<longleftrightarrow> is_dead x p1 \<or> EvFreeCall x \<in> set evs2)"
    unfolding quiet_step_def by blast
  have "hooks_view p2 = hooks_view p \<and>
        (\<forall>x. is_dead x p2 \<longleftrightarrow> is_dead x p \<or> EvFreeCall x \<in> set (evs1 @ evs2))"
    if a: "next_id p2 = next_id p" and b: "\<forall>x. EvSetAfterCall x \<notin> set (evs1 @ evs2)"
  proof -
    from a n1 n2 have e: "next_id p1 = next_id p" "next_id p2 = next_id p1" by simp_all
    from b have "\<forall>x. EvSetAfterCall x \<notin> set evs1" "\<forall>x. EvSetAfterCall x \<notin> set evs2" by simp_all
    with e h1 h2 show ?thesis by auto
  qed
  then show ?thesis
    unfolding quiet_step_def using l1 l2 n1 n2
    by (intro exI [of _ "evs1 @ evs2"]) simp
qed

lemma quiet_step_same:
  assumes "hooks_view p' = hooks_view p" and "view p' = view p" and "next_id p' = next_id p"
    and "log p' = log p @ evs" and "\<forall>x. EvFreeCall x \<notin> set evs"
  shows "quiet_step p p'"
  unfolding quiet_step_def using assms
  by (intro exI [of _ evs]) (simp add: is_dead_def)

lemma hooks_update_first:
  "(\<And>j. iid (f j) = iid j \<and> after_cb (f j) = after_cb j) \<Longrightarrow>
   map (\<lambda>i. (iid i, after_cb i)) (update_first x f is) = map (\<lambda>i. (iid i, after_cb i)) is"
  by (induction "is") auto

lemma hooks_same_but_ptr:
  "list_all2 same_but_ptr is' is \<Longrightarrow>
   map (\<lambda>i. (iid i, after_cb i)) is' = map (\<lambda>i. (iid i, after_cb i)) is"
  by (induction rule: list_all2_induct) (auto simp: same_but_ptr_def)

lemma update_first_dead_iff:
  "find (\<lambda>j. iid j = y) is = Some i \<Longrightarrow>
   (\<exists>j \<in> set (update_first y (\<lambda>j. j\<lparr>dead := True\<rparr>) is). iid j = x \<and> dead j)
     \<longleftrightarrow> (\<exists>j \<in> set is. iid j = x \<and> dead j) \<or> x = y"
  by (induction "is") (auto split: if_splits)

lemma exec_action_quiet:
  assumes run: "running p" and ex: "exec_action a p = Inr p'"
  shows "quiet_step p p'"
proof (cases a)
  case (ANew n)
  with ex have "log p' = log p @ []" and "next_id p' = Suc (next_id p)"
    by (auto simp: pa_rtpoll_item_new_def Let_def split: if_splits sum.splits)
  then show ?thesis
    unfolding quiet_step_def by (intro exI [of _ "[]"]) simp
next
  case (AFree y)
  with ex run obtain i where f: "find (\<lambda>j. iid j = y) (items p) = Some i"
    and p': "p' = p\<lparr>items := update_first y (\<lambda>j. j\<lparr>dead := True\<rparr>) (items p),
                    scan_for_dead := True, log := log p @ [EvFreeCall y]\<rparr>"
    by (auto simp: pa_rtpoll_item_free_def update_item_def find_item_def split: option.splits)
  have h: "hooks_view p' = hooks_view p"
    by (simp add: p' hooks_view_def hooks_update_first)
  have d: "is_dead x p' \<longleftrightarrow> is_dead x p \<or> x = y" for x
    using update_first_dead_iff [OF f, of x] by (simp add: p' is_dead_iff)
  show ?thesis
    unfolding quiet_step_def using h d
    by (intro exI [of _ "[EvFreeCall y]"]) (auto simp: p')
next
  case (ASetBefore y c)
  with ex show ?thesis
    by (intro quiet_step_same [where evs = "[]"])
       (auto simp: pa_rtpoll_item_set_before_callback_def update_item_def view_def
                   hooks_view_def view_update_first hooks_update_first split: option.splits)
next
  case (ASetAfter y c)
  with ex have "log p' = log p @ [EvSetAfterCall y]" and "next_id p' = next_id p"
    by (auto simp: pa_rtpoll_item_set_after_callback_def update_item_def split: option.splits)
  then show ?thesis
    unfolding quiet_step_def by (intro exI [of _ "[EvSetAfterCall y]"]) simp
next
  case (ASetUserdata y u)
  with ex show ?thesis
    by (intro quiet_step_same [where evs = "[]"])
       (auto simp: pa_rtpoll_item_set_userdata_def update_item_def view_def
                   hooks_view_def view_update_first hooks_update_first split: option.splits)
next
  case (AGetPollfd y)
  with ex have r: "(if rebuild_needed p then rtpoll_rebuild p else Inr p) = Inr p'"
    by (auto simp: pa_rtpoll_item_get_pollfd_def split: sum.splits option.splits)
  show ?thesis
  proof (cases "rebuild_needed p")
    case False
    with r show ?thesis by (simp add: quiet_step_refl)
  next
    case True
    with r have rb: "rtpoll_rebuild p = Inr p'" by simp
    show ?thesis
      by (rule quiet_step_same [where evs = "[]"])
         (simp_all add: rtpoll_rebuild_same [OF rb] view_def hooks_view_def
                        view_same_but_ptr hooks_same_but_ptr)
  qed
qed

lemma exec_script_quiet:
  "cycle_inv p \<Longrightarrow> exec_script as p = Inr p' \<Longrightarrow> quiet_step p p'"
proof (induction as arbitrary: p)
  case Nil
  then show ?case by (simp add: quiet_step_refl)
next
  case (Cons a as)
  from Cons.prems obtain p1 where a: "exec_action a p = Inr p1" and s: "exec_script as p1 = Inr p'"
    by (auto split: sum.splits)
  from Cons.prems(1) have "running p" by (simp add: cycle_inv_def)
  from exec_action_quiet [OF this a] have q1: "quiet_step p p1" .
  from exec_action_cyc_step [OF Cons.prems(1) a] have "cycle_inv p1" by (rule cyc_step_inv)
  from Cons.IH [OF this s] q1 show ?case by (rule quiet_step_trans [rotated])
qed

lemma quiet_step_log_only:
  assumes "p' = p\<lparr>log := log p @ evs\<rparr>" and "\<forall>x. EvFreeCall x \<notin> set evs"
  shows "quiet_step p p'"
  by (rule quiet_step_same [where evs = evs]) (simp_all add: assms view_def hooks_view_def)

lemma call_before_quiet:
  assumes inv: "cycle_inv p" and cb: "call_before e i c p = Inr (r, p')"
  shows "quiet_step p p'"
proof (cases c)
  case FdsemBefore
  with cb have "p' = p\<lparr>log := log p @ [EvBefore (iid i) r]\<rparr>"
    by (auto simp: call_before_def)
  then show ?thesis by (rule quiet_step_log_only) simp
next
  case AsyncmsgqBefore
  with cb have "p' = p\<lparr>log := log p @ [EvBefore (iid i) r]\<rparr>"
    by (auto simp: call_before_def)
  then show ?thesis by (rule quiet_step_log_only) simp
next
  case (BScript as v)
  with cb obtain p1 where s: "exec_script as p = Inr p1"
    and p': "p' = p1\<lparr>log := log p1 @ [EvBefore (iid i) r]\<rparr>"
    by (auto simp: call_before_def split: sum.splits)
  from exec_script_quiet [OF inv s] have q1: "quiet_step p p1" .
  from p' have "quiet_step p1 p'" by (rule quiet_step_log_only) simp
  with q1 show ?thesis by (rule quiet_step_trans)
qed

lemma call_after_quiet:
  assumes inv: "cycle_inv p" and ca: "call_after i c p = Inr p'"
  shows "quiet_step p p'"
proof -
  let ?p0 = "p\<lparr>log := log p @ [EvAfter (iid i) (slice_of i p)]\<rparr>"
  have e0: "?p0 = p\<lparr>log := log p @ [EvAfter (iid i) (slice_of i p)]\<rparr>" by simp
  then have q0: "quiet_step p ?p0" by (rule quiet_step_log_only) simp
  from inv e0 have "cyc_step p ?p0" by (rule cyc_step_log_only) simp_all
  then have inv0: "cycle_inv ?p0" by (rule cyc_step_inv)
  have "quiet_step ?p0 p'"
  proof (cases c)
    case FdsemAfter
    with ca have "p' = ?p0\<lparr>log := log ?p0 @ [EvFdsemAfterPoll (userdata i)]\<rparr>"
      by (auto simp: call_after_def fdsem_after_def Let_def split: sum.splits)
    then show ?thesis by (rule quiet_step_log_only) simp
  next
    case AsyncmsgqAfter
    with ca have "p' = ?p0\<lparr>log := log ?p0 @ [EvAsyncmsgqAfterPoll (userdata i)]\<rparr>"
      by (auto simp: call_after_def asyncmsgq_after_def Let_def split: sum.splits)
    then show ?thesis by (rule quiet_step_log_only) simp
  next
    case (AScript as)
    with ca have "exec_script as ?p0 = Inr p'" by (simp add: call_after_def Let_def)
    with inv0 show ?thesis by (rule exec_script_quiet)
  qed
  with q0 show ?thesis by (rule quiet_step_trans)
qed

lemma before_loop_quiet:
  "cycle_inv p \<Longrightarrow> before_loop e xs p = Inr (res, p') \<Longrightarrow>
   quiet_step p p' \<and> (\<forall>b. res = Some b \<longrightarrow> b \<in> set xs)"
proof (induction xs arbitrary: p)
  case Nil
  then show ?case by (simp add: quiet_step_refl)
next
  case (Cons x xs)
  from Cons.prems obtain i where f: "find_item x p = Some i"
    by (auto split: option.splits)
  show ?case
  proof (cases "dead i \<or> before_cb i = None")
    case True
    with Cons.prems f have "before_loop e xs p = Inr (res, p')" by (auto split: if_splits)
    from Cons.IH [OF Cons.prems(1) this] show ?thesis by auto
  next
    case False
    then obtain c where c: "before_cb i = Some c" and d: "\<not> dead i" by auto
    from Cons.prems f c d obtain r p1 where cb: "call_before e i c p = Inr (r, p1)"
      by (auto split: sum.splits)
    from call_before_quiet [OF Cons.prems(1) cb] have q1: "quiet_step p p1" .
    from call_before_cyc_step [OF Cons.prems(1) cb] have inv1: "cycle_inv p1"
      by (rule cyc_step_inv)
    show ?thesis
    proof (cases "r < 0")
      case True
      with Cons.prems f c d cb q1 show ?thesis by auto
    next
      case False
      with Cons.prems f c d cb have "before_loop e xs p1 = Inr (res, p')" by auto
      from Cons.IH [OF inv1 this] q1 show ?thesis by (auto intro: quiet_step_trans)
    qed
  qed
qed


lemma unique_item:
  assumes "distinct (ids p)" and "find_item x p = Some i"
  shows "(has_after x p \<longleftrightarrow> after_cb i \<noteq> None) \<and> (is_dead x p \<longleftrightarrow> dead i)"
proof -
  from assms have dis: "distinct (map iid (items p))"
    and f: "find (\<lambda>j. iid j = x) (items p) = Some i"
    by (simp_all add: ids_def find_item_def)
  from find_item_ids [OF assms(2)] have im: "i \<in> set (items p)" and ix: "iid i = x" by auto
  have u: "j = i" if "j \<in> set (items p)" "iid j = x" for j
    using find_unique [OF dis f that] .
  have h: "has_after x p \<longleftrightarrow> (\<exists>j \<in> set (items p). iid j = x \<and> after_cb j \<noteq> None)"
  proof
    assume "has_after x p"
    then obtain c j where "j \<in> set (items p)" "iid j = x" "after_cb j = Some c"
      unfolding has_after_def hooks_view_def by (metis (mono_tags, lifting) imageE list.set_map prod.inject)
    then show "\<exists>j \<in> set (items p). iid j = x \<and> after_cb j \<noteq> None" by auto
  next
    assume "\<exists>j \<in> set (items p). iid j = x \<and> after_cb j \<noteq> None"
    then obtain j c where j: "j \<in> set (items p)" "iid j = x" "after_cb j = Some c" by auto
    then have "(x, Some c) \<in> set (hooks_view p)"
      by (force simp: hooks_view_def)
    then show "has_after x p" by (auto simp: has_after_def)
  qed
  have h1: "(\<exists>j \<in> set (items p). iid j = x \<and> after_cb j \<noteq> None) \<longleftrightarrow> after_cb i \<noteq> None"
    using im ix u by blast
  have d1: "(\<exists>j \<in> set (items p). iid j = x \<and> dead j) \<longleftrightarrow> dead i"
    using im ix u by blast
  show ?thesis
    unfolding h h1 is_dead_iff d1 by simp
qed

lemma quiet_step_frozen:
  assumes "quiet_step p p'" and "log p' = log p @ evs" and "next_id p' = next_id p"
    and "\<forall>x. EvSetAfterCall x \<notin> set evs"
  shows "hooks_view p' = hooks_view p \<and>
         (\<forall>x. is_dead x p' \<longleftrightarrow> is_dead x p \<or> EvFreeCall x \<in> set evs)"
proof -
  from assms(1) obtain evs' where l: "log p' = log p @ evs'"
    and h: "next_id p' = next_id p \<and> (\<forall>x. EvSetAfterCall x \<notin> set evs') \<longrightarrow>
              hooks_view p' = hooks_view p \<and>
              (\<forall>x. is_dead x p' \<longleftrightarrow> is_dead x p \<or> EvFreeCall x \<in> set evs')"
    unfolding quiet_step_def by blast
  from l assms(2) have "evs' = evs" by simp
  with h assms(3,4) show ?thesis by blast
qed

lemma cyc_step_same_ids:
  "cyc_step p p' \<Longrightarrow> next_id p' = next_id p \<Longrightarrow> ids p' = ids p"
  by (simp add: cyc_step_def)

lemma rollback_exact:
  "cycle_inv q \<Longrightarrow> rollback_loop c q = Inr q' \<Longrightarrow> log q' = log q @ evs \<Longrightarrow>
   next_id q' = next_id q \<Longrightarrow> \<forall>x. EvSetAfterCall x \<notin> set evs \<Longrightarrow>
   \<forall>x. EvFreeCall x \<notin> set evs \<Longrightarrow>
   after_ids evs = rev (filter (\<lambda>x. has_after x q \<and> \<not> is_dead x q) (upto_ids c q))"
proof (induction c q arbitrary: evs rule: rollback_loop.induct)
  case (1 p)
  then show ?case by (simp add: upto_ids_def)
next
  case (2 x p)
  note inv = "2.prems"(1) and rb = "2.prems"(2) and l = "2.prems"(3) and n = "2.prems"(4)
    and ns = "2.prems"(5) and nf = "2.prems"(6)
  from inv have run: "running p" and dis: "distinct (ids p)"
    by (simp_all add: cycle_inv_def ids_ok_def)
  with rb obtain i where f: "find_item x p = Some i"
    by (auto split: option.splits)
  let ?step = "if dead i then Inr p
               else (case after_cb i of None \<Rightarrow> Inr p | Some c \<Rightarrow> call_after i c p)"
  from rb run f obtain p1 c where st: "?step = Inr p1"
    and pr: "prev_of x p1 = Inr c" and rest: "rollback_loop c p1 = Inr q'"
    by (auto split: sum.splits)
  from find_item_ids [OF f] have xin: "x \<in> set (ids p)" and ix: "iid i = x" by auto
  let ?P = "\<lambda>x. has_after x p \<and> \<not> is_dead x p"
  from unique_item [OF dis f] have px: "?P x \<longleftrightarrow> after_cb i \<noteq> None \<and> \<not> dead i" by auto
  have "\<exists>evs1. log p1 = log p @ evs1 \<and> cyc_step p p1 \<and> quiet_step p p1 \<and>
          after_ids evs1 = (if ?P x then [x] else [])"
  proof (cases "dead i \<or> after_cb i = None")
    case True
    with st have e: "p1 = p" by (auto split: if_splits)
    from True px have np: "\<not> ?P x" by auto
    show ?thesis
      using e np cyc_step_refl [OF inv] quiet_step_refl [of p]
      by (intro exI [of _ "[]"]) simp
  next
    case False
    then obtain a where a: "after_cb i = Some a" "\<not> dead i" by auto
    with st have ca: "call_after i a p = Inr p1" by simp
    from call_after_grows [OF ca] ix obtain evs0 where
      l0: "log p1 = log p @ EvAfter x (slice_of i p) # evs0" and m0: "list_all is_minor evs0"
      by auto
    from a px have yp: "?P x" by simp
    have "after_ids (EvAfter x (slice_of i p) # evs0) = [x]"
      using m0 by (simp add: after_ids_minor)
    with l0 yp call_after_cyc_step [OF inv ca] call_after_quiet [OF inv ca] show ?thesis
      by (intro exI [of _ "EvAfter x (slice_of i p) # evs0"]) simp
  qed
  then obtain evs1 where l1: "log p1 = log p @ evs1" and s1: "cyc_step p p1"
    and q1: "quiet_step p p1" and a1: "after_ids evs1 = (if ?P x then [x] else [])"
    by blast
  from rollback_loop_grows [OF rest] obtain evs2 where l2: "log q' = log p1 @ evs2"
    by (auto simp: grows_def)
  from l l1 l2 have evs: "evs = evs1 @ evs2" by simp
  from s1 have n1: "next_id p \<le> next_id p1" by (simp add: cyc_step_def)
  from rollback_loop_cyc_step [OF cyc_step_inv [OF s1] rest] have "next_id p1 \<le> next_id q'"
    by (simp add: cyc_step_def)
  with n n1 have e1: "next_id p1 = next_id p" and e2: "next_id q' = next_id p1" by simp_all
  from ns nf evs have ns1: "\<forall>x. EvSetAfterCall x \<notin> set evs1" and nf1: "\<forall>x. EvFreeCall x \<notin> set evs1"
    and ns2: "\<forall>x. EvSetAfterCall x \<notin> set evs2" and nf2: "\<forall>x. EvFreeCall x \<notin> set evs2"
    by simp_all
  from quiet_step_frozen [OF q1 l1 e1 ns1]
  have hv: "hooks_view p1 = hooks_view p"
    and dd0: "\<forall>y. is_dead y p1 \<longleftrightarrow> is_dead y p \<or> EvFreeCall y \<in> set evs1"
    by blast+
  have dd: "is_dead y p1 \<longleftrightarrow> is_dead y p" for y
    using dd0 nf1 by blast
  have same: "(\<lambda>y. has_after y p1 \<and> \<not> is_dead y p1) = ?P"
    by (intro ext) (simp add: has_after_def hv dd)
  from cyc_step_same_ids [OF s1 e1] have i1: "ids p1 = ids p" .
  from run have nr: "\<not> \<not> running p" by simp
  from "2.IH" [OF nr f st pr cyc_step_inv [OF s1] rest l2 e2 ns2 nf2]
  have ih: "after_ids evs2 = rev (filter ?P (upto_ids c p1))" by (simp add: same)
  from dis i1 have "distinct (ids p1)" by simp
  from prev_upto [OF this pr] i1
  have u: "upto_ids c p1 = takeWhile (\<lambda>y. y \<noteq> x) (ids p)" by simp
  from ih u have ih': "after_ids evs2 = rev (filter ?P (takeWhile (\<lambda>y. y \<noteq> x) (ids p)))"
    by simp
  have g: "upto_ids (Some x) p = takeWhile (\<lambda>y. y \<noteq> x) (ids p) @ [x]"
    by (simp add: upto_ids_def)
  show ?case
    unfolding g evs after_ids_append a1 ih' by simp
qed


lemma after_loop_grows_any:
  "after_loop ne xs p = Inr p' \<Longrightarrow> grows (\<lambda>ev. is_minor ev \<or> any_after ev) p p'"
proof (induction xs arbitrary: p)
  case Nil
  then show ?case by (simp add: grows_refl)
next
  case (Cons x xs)
  from Cons.prems obtain i where f: "find_item x p = Some i"
    by (auto split: option.splits)
  show ?case
  proof (cases "dead i \<or> after_cb i = None")
    case True
    with Cons.prems f have "after_loop ne xs p = Inr p'" by (auto split: if_splits)
    then show ?thesis by (rule Cons.IH)
  next
    case False
    then obtain c where c: "after_cb i = Some c" and d: "\<not> dead i" by auto
    from Cons.prems f c d obtain p1 p2 where
      cl: "(if ne then clear_revents i p else Inr p) = Inr p1"
      and ca: "call_after i c p1 = Inr p2" and rest: "after_loop ne xs p2 = Inr p'"
      by (auto split: sum.splits)
    have l1: "log p1 = log p"
      using cl clear_revents_slice [of i p p1] by (auto split: if_splits)
    from call_after_grows [OF ca] l1
    have "grows (\<lambda>ev. is_minor ev \<or> any_after ev) p p2"
      by (auto simp: grows_def any_after_def list_all_iff)
    with Cons.IH [OF rest] show ?thesis by (rule grows_trans [rotated])
  qed
qed

lemma not_neg_before:
  "is_minor ev \<or> nonneg_before ev \<or> is_wait ev \<or> any_after ev \<Longrightarrow> ev \<noteq> EvBefore x v \<or> 0 \<le> v"
  by (auto simp: is_minor_def nonneg_before_def is_wait_def any_after_def)

text \<open>A cycle in which no before-hook vetoes logs no negative return of a before-hook.\<close>

lemma no_veto_no_negative:
  assumes run: "pa_rtpoll_run b e cy p = Inr (r, p')"
    and bl: "before_loop e (ids (p\<lparr>running := True\<rparr>)) (p\<lparr>running := True\<rparr>) = Inr (None, p1)"
  shows "\<forall>x v. EvBefore x v \<in> set (new_events p p') \<longrightarrow> 0 \<le> v"
proof -
  let ?p0 = "p\<lparr>running := True\<rparr>"
  from run have pre: "\<not> running p" "installed p" by (auto simp: pa_rtpoll_run_def split: if_splits)
  from run pre bl obtain p2 where
    rbd: "(if rebuild_needed p1 then rtpoll_rebuild p1 else Inr p1) = Inr p2"
    by (auto simp: pa_rtpoll_run_def Let_def split: sum.splits)
  obtain rw s p3 where ws: "wait_step b cy (calc_timeout cy p2) p2 = (rw, s, p3)"
    by (cases "wait_step b cy (calc_timeout cy p2) p2") auto
  let ?p4 = "timer_after_wait (now_after cy) p3"
  let ?ne = "rw = 0 \<or> (rw < 0 \<and> (errno ?p4 = EAGAIN \<or> errno ?p4 = EINTR))"
  from run pre bl rbd ws obtain p5 where
    al: "after_loop ?ne (ids ?p4) ?p4 = Inr p5"
    and fin: "finish (if ?ne then 0 else rw) s p5 = Inr (r, p')"
    by (auto simp: pa_rtpoll_run_def Let_def split: sum.splits)
  let ?Q = "\<lambda>ev. is_minor ev \<or> nonneg_before ev \<or> is_wait ev \<or> any_after ev"
  have g1: "grows ?Q p p1"
    using before_loop_grows [OF bl] by (auto simp: grows_def list_all_iff)
  have l2: "log p2 = log p1"
    using rbd by (auto simp: rtpoll_rebuild_same(3) split: if_splits)
  have g3: "grows ?Q p2 ?p4"
    using wait_step_grows [OF ws] by (auto simp: grows_def list_all_iff)
  have g5: "grows ?Q ?p4 p5"
    using after_loop_grows_any [OF al] by (rule grows_mono) auto
  have g6: "grows ?Q p5 p'"
    using finish_grows [OF fin] by (rule grows_mono) auto
  have "grows ?Q p p'"
    using g1 l2 g3 g5 g6 by (auto simp: grows_def)
  then obtain evs where evs: "log p' = log p @ evs" and qa: "list_all ?Q evs"
    by (auto simp: grows_def)
  have "0 \<le> v" if "EvBefore x v \<in> set evs" for x v
  proof -
    from qa that have "?Q (EvBefore x v)" by (auto simp: list_all_iff)
    from not_neg_before [OF this, of x v] show ?thesis by simp
  qed
  with evs show ?thesis by (simp add: new_events_def)
qed


lemma minor_or_nonneg_not_veto:
  "list_all (\<lambda>ev. is_minor ev \<or> nonneg_before ev) evs \<Longrightarrow> v < 0 \<Longrightarrow> EvBefore x v \<notin> set evs"
  by (auto simp: list_all_iff is_minor_def nonneg_before_def)

lemma minor_or_after_not_before:
  "list_all (\<lambda>ev. is_minor ev \<or> any_after ev) evs \<Longrightarrow> EvBefore x v \<notin> set evs"
  by (auto simp: list_all_iff is_minor_def any_after_def)

text \<open>
  C1, as the code has it. A cycle starts between cycles and the before-hook of item \<open>x\<close>
  returns the negative value \<open>v\<close>. Then the cycle returns 0 and its log is: the events \<open>T1\<close>
  of the before-hooks up to the veto, all of which returned a non-negative value; the veto;
  the events \<open>T2\<close> of the rollback, among which there is no return of a before-hook and no
  wait; and the releases of the reaping loop. With \<open>q1\<close> the state in which the forward loop
  stops at the veto, the rollback is the walk \<open>rollback_spec\<close> from \<open>q1\<close> over the previously
  visited items (those in front of \<open>x\<close> in the list at the start) in reverse list order,
  followed by the items that hooks created during this cycle, oldest first: the after-hooks
  entered are those of exactly the items of this sequence that are live and have an
  after-hook when the walk reaches them, in this order. So no item at or behind \<open>x\<close> has its
  after-hook called. When no item is created during the cycle, no after-hook is set and the
  rollback frees no item, they are exactly the previously visited items that have an
  after-hook and were not freed during the before-hooks, in reverse list order.
\<close>

theorem veto_rolls_back:
  assumes q: "quiescent p" and ok: "ids_ok p" and run: "pa_rtpoll_run b e cy p = Inr (r, p')"
    and veto: "EvBefore x v \<in> set (new_events p p')" and neg: "v < 0"
  shows "\<exists>T1 T2 T3 q1 q2.
           new_events p p' = T1 @ [EvBefore x v] @ T2 @ map EvReclaim T3 \<and>
           r = 0 \<and> x \<in> set (ids p) \<and>
           list_all (\<lambda>ev. is_minor ev \<or> nonneg_before ev) T1 \<and>
           list_all (\<lambda>ev. is_minor ev \<or> any_after ev) T2 \<and>
           (\<forall>y. EvReclaim y \<notin> set (T1 @ T2)) \<and>
           before_loop e (ids p) (p\<lparr>running := True\<rparr>) = Inr (Some x, q1) \<and>
           log q1 = log p @ T1 @ [EvBefore x v] \<and>
           rollback_spec
             (rev (takeWhile (\<lambda>y. y \<noteq> x) (ids p)) @ [next_id p ..< next_id p']) q1
             = Inr (after_ids T2, q2) \<and>
           log q2 = log q1 @ T2 \<and>
           finish 0 (uninit_int cy) q2 = Inr (r, p') \<and>
           subseq (after_ids T2)
             (rev (takeWhile (\<lambda>y. y \<noteq> x) (ids p)) @ [next_id p ..< next_id p']) \<and>
           (next_id p' = next_id p \<and> (\<forall>y. EvSetAfterCall y \<notin> set (T1 @ T2)) \<and>
            (\<forall>y. EvFreeCall y \<notin> set T2) \<longrightarrow>
              after_ids T2
                = rev (filter (\<lambda>y. has_after y p \<and> EvFreeCall y \<notin> set T1)
                         (takeWhile (\<lambda>y. y \<noteq> x) (ids p))))"
proof -
  let ?p0 = "p\<lparr>running := True\<rparr>"
  have inv0: "cycle_inv ?p0" using q ok by (rule quiescent_cycle_inv)
  have ids0: "ids ?p0 = ids p" and nid0: "next_id ?p0 = next_id p" and log0: "log ?p0 = log p"
    and hv0: "hooks_view ?p0 = hooks_view p"
    by (simp_all add: ids_def hooks_view_def)
  have nodead0: "\<not> is_dead y ?p0" for y
    using q by (auto simp: quiescent_def is_dead_iff list_all_iff)
  from run have pre: "\<not> running p" "installed p" by (auto simp: pa_rtpoll_run_def split: if_splits)
  from run pre obtain res p1 where bl: "before_loop e (ids ?p0) ?p0 = Inr (res, p1)"
    by (auto simp: pa_rtpoll_run_def Let_def split: sum.splits)
  have "res \<noteq> None"
  proof
    assume "res = None"
    with bl have "before_loop e (ids ?p0) ?p0 = Inr (None, p1)" by simp
    from no_veto_no_negative [OF run this] veto neg show False by force
  qed
  then obtain x' where res: "res = Some x'" by auto
  from run pre bl res obtain c p2 where pr: "prev_of x' p1 = Inr c"
    and rb: "rollback_loop c p1 = Inr p2" and fin: "finish 0 (uninit_int cy) p2 = Inr (r, p')"
    by (auto simp: pa_rtpoll_run_def Let_def split: sum.splits)
  from before_loop_grows [OF bl] res log0 obtain evs1 v' where
    l1: "log p1 = log p @ evs1 @ [EvBefore x' v']" and v': "v' < 0"
    and m1: "list_all (\<lambda>ev. is_minor ev \<or> nonneg_before ev) evs1"
    by auto
  from before_loop_cyc_step [OF inv0 bl] have s1: "cyc_step ?p0 p1" .
  then have inv1: "cycle_inv p1" by (rule cyc_step_inv)
  from rollback_loop_cyc_step [OF inv1 rb] have s2: "cyc_step p1 p2" .
  then have inv2: "cycle_inv p2" by (rule cyc_step_inv)
  from rollback_loop_grows [OF rb] obtain evs2 where l2: "log p2 = log p1 @ evs2"
    and m2: "list_all (\<lambda>ev. is_minor ev \<or> any_after ev) evs2"
    by (auto simp: grows_def)
  from finish_result [OF inv2 fin]
  have r0: "r = 0" and n3: "next_id p' = next_id p2"
    and l3: "log p' = log p2 @ map EvReclaim (filter (\<lambda>y. is_dead y p2) (ids p2))"
    by simp_all
  let ?T3 = "filter (\<lambda>y. is_dead y p2) (ids p2)"
  have new: "new_events p p' = evs1 @ [EvBefore x' v'] @ evs2 @ map EvReclaim ?T3"
    using l1 l2 l3 by (simp add: new_events_def)
  have same: "x' = x \<and> v' = v"
  proof -
    from veto new have "EvBefore x v \<in> set evs1 \<or> EvBefore x v = EvBefore x' v' \<or>
                        EvBefore x v \<in> set evs2 \<or> EvBefore x v \<in> set (map EvReclaim ?T3)"
      by auto
    moreover have "EvBefore x v \<notin> set evs1" using m1 neg by (rule minor_or_nonneg_not_veto)
    moreover have "EvBefore x v \<notin> set evs2" using m2 by (rule minor_or_after_not_before)
    moreover have "EvBefore x v \<notin> set (map EvReclaim ?T3)" by auto
    ultimately show ?thesis by simp
  qed
  then have xx: "x' = x" and vv: "v' = v" by simp_all
  from before_loop_quiet [OF inv0 bl] res xx ids0
  have qs1: "quiet_step ?p0 p1" and xin: "x \<in> set (ids p)" by auto
  have xin0: "x \<in> set (ids ?p0)" using xin ids0 by simp
  \<comment> \<open>no release before the reaping loop\<close>
  from s1 l1 log0 have nr1: "\<forall>y. EvReclaim y \<notin> set (evs1 @ [EvBefore x' v'])"
    by (auto simp: cyc_step_def)
  from s2 l2 have nr2: "\<forall>y. EvReclaim y \<notin> set evs2"
    by (auto simp: cyc_step_def)
  \<comment> \<open>the candidates of the rollback\<close>
  from inv1 have dis1: "distinct (ids p1)" by (simp add: cycle_inv_def ids_ok_def)
  have up: "upto_ids c p1 = rev [next_id p ..< next_id p1] @ takeWhile (\<lambda>y. y \<noteq> x) (ids p)"
    using prev_upto [OF dis1 pr] cyc_step_new_ids [OF inv0 s1 xin0] xx ids0 nid0 by simp
  from s1 nid0 have n1: "next_id p \<le> next_id p1" by (simp add: cyc_step_def)
  from s2 have n2: "next_id p1 \<le> next_id p2" by (simp add: cyc_step_def)
  have upt: "[next_id p ..< next_id p'] = [next_id p ..< next_id p1] @ [next_id p1 ..< next_id p2]"
    using n1 n2 n3 by (metis le_Suc_ex upt_add_eq_append)
  from rollback_subseq [OF inv1 rb] obtain evs where
    le: "log p2 = log p1 @ evs"
    and sq: "subseq (after_ids evs) (rev (upto_ids c p1) @ [next_id p1 ..< next_id p2])"
    by blast
  from le l2 have "evs = evs2" by simp
  with sq have sub: "subseq (after_ids evs2)
                       (rev (takeWhile (\<lambda>y. y \<noteq> x) (ids p)) @ [next_id p ..< next_id p'])"
    by (simp add: up upt)
  \<comment> \<open>the rollback as a walk over the candidates\<close>
  have walk: "rollback_spec
                (rev (takeWhile (\<lambda>y. y \<noteq> x) (ids p)) @ [next_id p ..< next_id p']) p1
                = Inr (after_ids evs2, p2)"
    using rollback_loop_is_walk [OF inv1 rb l2] by (simp add: up upt)
  \<comment> \<open>the exact list when the hooks leave the list alone\<close>
  have exact: "after_ids evs2
                 = rev (filter (\<lambda>y. has_after y p \<and> EvFreeCall y \<notin> set evs1)
                          (takeWhile (\<lambda>y. y \<noteq> x) (ids p)))"
    if h1: "next_id p' = next_id p" and h2: "\<forall>y. EvSetAfterCall y \<notin> set (evs1 @ evs2)"
      and h3: "\<forall>y. EvFreeCall y \<notin> set evs2"
  proof -
    from h1 n1 n2 n3 have e1: "next_id p1 = next_id ?p0" and e2: "next_id p2 = next_id p1"
      by simp_all
    from l1 log0 have l1': "log p1 = log ?p0 @ (evs1 @ [EvBefore x' v'])" by simp
    from h2 have ns1: "\<forall>y. EvSetAfterCall y \<notin> set (evs1 @ [EvBefore x' v'])"
      and ns2: "\<forall>y. EvSetAfterCall y \<notin> set evs2"
      by simp_all
    from quiet_step_frozen [OF qs1 l1' e1 ns1]
    have hv: "hooks_view p1 = hooks_view ?p0"
      and dd0: "\<forall>y. is_dead y p1 \<longleftrightarrow> is_dead y ?p0 \<or> EvFreeCall y \<in> set (evs1 @ [EvBefore x' v'])"
      by blast+
    have dd: "is_dead y p1 \<longleftrightarrow> EvFreeCall y \<in> set evs1" for y
      using dd0 nodead0 by simp
    have ha: "has_after y p1 \<longleftrightarrow> has_after y p" for y
      by (simp add: has_after_def hv hv0)
    from cyc_step_same_ids [OF s1 e1] ids0 have i1: "ids p1 = ids p" by simp
    from prev_upto [OF dis1 pr] xx i1
    have u: "upto_ids c p1 = takeWhile (\<lambda>y. y \<noteq> x) (ids p)" by simp
    have pp: "(\<lambda>y. has_after y p1 \<and> \<not> is_dead y p1)
                = (\<lambda>y. has_after y p \<and> EvFreeCall y \<notin> set evs1)"
      by (intro ext) (simp add: ha dd)
    from rollback_exact [OF inv1 rb l2 e2 ns2 h3]
    show ?thesis unfolding pp u .
  qed
  show ?thesis
  proof (rule exI [of _ evs1], rule exI [of _ evs2], rule exI [of _ ?T3],
         rule exI [of _ p1], rule exI [of _ p2], intro conjI impI)
    show "new_events p p' = evs1 @ [EvBefore x v] @ evs2 @ map EvReclaim ?T3"
      using new xx vv by simp
    show "before_loop e (ids p) (p\<lparr>running := True\<rparr>) = Inr (Some x, p1)"
      using bl res xx ids0 by simp
    show "log p1 = log p @ evs1 @ [EvBefore x v]" using l1 xx vv by simp
    show "rollback_spec
            (rev (takeWhile (\<lambda>y. y \<noteq> x) (ids p)) @ [next_id p ..< next_id p']) p1
            = Inr (after_ids evs2, p2)"
      by (rule walk)
    show "log p2 = log p1 @ evs2" by (rule l2)
    show "finish 0 (uninit_int cy) p2 = Inr (r, p')" by (rule fin)
    show "r = 0" by (rule r0)
    show "x \<in> set (ids p)" by (rule xin)
    show "list_all (\<lambda>ev. is_minor ev \<or> nonneg_before ev) evs1" by (rule m1)
    show "list_all (\<lambda>ev. is_minor ev \<or> any_after ev) evs2" by (rule m2)
    show "\<forall>y. EvReclaim y \<notin> set (evs1 @ evs2)" using nr1 nr2 by simp
    show "subseq (after_ids evs2)
            (rev (takeWhile (\<lambda>y. y \<noteq> x) (ids p)) @ [next_id p ..< next_id p'])"
      by (rule sub)
  next
    assume "next_id p' = next_id p \<and> (\<forall>y. EvSetAfterCall y \<notin> set (evs1 @ evs2)) \<and>
            (\<forall>y. EvFreeCall y \<notin> set evs2)"
    then show "after_ids evs2
                 = rev (filter (\<lambda>y. has_after y p \<and> EvFreeCall y \<notin> set evs1)
                          (takeWhile (\<lambda>y. y \<noteq> x) (ids p)))"
      using exact by blast
  qed
qed


text \<open>Three items \<open>A\<close>, \<open>B\<close>, \<open>C\<close> in list order (identities 2, 1, 0), each with a
  before-hook and an after-hook; the before-hook of \<open>B\<close> vetoes.\<close>

definition abc_set :: rtpoll where
  "abc_set =
     idle_poll_set
       \<lparr>items := [\<lparr>iid = 2, dead = False, pollfd_ptr = None, n_pollfd = 1,
                   before_cb = Some (BScript [] 0), after_cb = Some (AScript []), userdata = None\<rparr>,
                 \<lparr>iid = 1, dead = False, pollfd_ptr = None, n_pollfd = 1,
                   before_cb = Some (BScript [] (- 1)), after_cb = Some (AScript []), userdata = None\<rparr>,
                 \<lparr>iid = 0, dead = False, pollfd_ptr = None, n_pollfd = 1,
                   before_cb = Some (BScript [] 0), after_cb = Some (AScript []), userdata = None\<rparr>],
        n_pollfd_used := 3, next_id := 3, rebuild_needed := True\<rparr>"

lemmas rollback_eval_defs =
  run_eval_defs poll_build_def quiet_cycle_def call_before_def call_after_def prev_of_def
  ahead_def find_item_def new_events_def slice_of_def

lemma abc_eval:
  "map_sum id (\<lambda>(r, p'). (r, new_events abc_set p', next_id p'))
     (pa_rtpoll_run poll_build no_ext (quiet_cycle 0) abc_set)
   = Inr (0, [EvBefore 2 0, EvBefore 1 (- 1), EvAfter 2 []], 3)"
  by (simp add: abc_set_def rollback_eval_defs)

lemma three_events_split:
  assumes "[a, EvBefore x v, c] = T1 @ [EvBefore x v] @ T2 @ map EvReclaim T3"
    and "a \<noteq> EvBefore x v" and "c \<noteq> EvBefore x v" and "\<forall>y. c \<noteq> EvReclaim y"
    and "\<forall>y. EvReclaim y \<notin> set (T1 @ T2)"
  shows "T1 = [a] \<and> T2 = [c] \<and> T3 = []"
proof -
  from assms(1,2) obtain T1' where t1: "T1 = a # T1'"
    and r1: "[EvBefore x v, c] = T1' @ [EvBefore x v] @ T2 @ map EvReclaim T3"
    by (cases T1) auto
  from r1 assms(3) have t1': "T1' = []" and r2: "[c] = T2 @ map EvReclaim T3"
    by (cases T1'; cases "tl T1'"; auto)+
  from r2 assms(4) have "T2 = [c]" "T3 = []"
    by (cases T2; cases T3; auto)+
  with t1 t1' show ?thesis by simp
qed

text \<open>Two items in list order; the before-hook of the first creates a third item and gives
  it an after-hook, the before-hook of the second vetoes.\<close>

definition spawning_set :: rtpoll where
  "spawning_set =
     idle_poll_set
       \<lparr>items := [\<lparr>iid = 1, dead = False, pollfd_ptr = None, n_pollfd = 1,
                   before_cb = Some (BScript [ANew 1, ASetAfter 2 (Some (AScript []))] 0),
                   after_cb = None, userdata = None\<rparr>,
                 \<lparr>iid = 0, dead = False, pollfd_ptr = None, n_pollfd = 1,
                   before_cb = Some (BScript [] (- 1)), after_cb = None, userdata = None\<rparr>],
        n_pollfd_used := 2, next_id := 2, rebuild_needed := True\<rparr>"

lemma spawning_eval:
  "map_sum id (\<lambda>(r, p'). (r, new_events spawning_set p'))
     (pa_rtpoll_run poll_build no_ext (quiet_cycle 0) spawning_set)
   = Inr (0, [EvSetAfterCall 2, EvBefore 1 0, EvBefore 0 (- 1), EvAfter 2 []])"
  by (simp add: spawning_set_def rollback_eval_defs pa_rtpoll_item_new_def
                pa_rtpoll_item_set_after_callback_def update_item_def)

lemma spawning_next:
  "map_sum id (\<lambda>(r, p'). (r, next_id p'))
     (pa_rtpoll_run poll_build no_ext (quiet_cycle 0) spawning_set) = Inr (0, 3)"
  by (simp add: spawning_set_def rollback_eval_defs pa_rtpoll_item_new_def
                pa_rtpoll_item_set_after_callback_def update_item_def)

lemma spawning_walk_eval:
  "\<exists>q1. before_loop no_ext (ids spawning_set) (spawning_set\<lparr>running := True\<rparr>) = Inr (Some 0, q1) \<and>
     map_sum id fst (rollback_spec [1, 2] q1) = Inr [2]"
  by (simp add: spawning_set_def rollback_eval_defs pa_rtpoll_item_new_def
                pa_rtpoll_item_set_after_callback_def update_item_def)

theorem veto_rolls_back_witness:
  "quiescent abc_set \<and> ids_ok abc_set \<and>
   (\<exists>p'. pa_rtpoll_run poll_build no_ext (quiet_cycle 0) abc_set = Inr (0, p') \<and>
      new_events abc_set p' = [EvBefore 2 0] @ [EvBefore 1 (- 1)] @ [EvAfter 2 []] @ map EvReclaim [] \<and>
      next_id p' = next_id abc_set \<and>
      after_ids [EvAfter 2 []]
        = rev (filter (\<lambda>y. has_after y abc_set \<and> EvFreeCall y \<notin> set [EvBefore 2 0])
                 (takeWhile (\<lambda>y. y \<noteq> 1) (ids abc_set)))) \<and>
   (\<exists>q1 q2. before_loop no_ext (ids abc_set) (abc_set\<lparr>running := True\<rparr>) = Inr (Some 1, q1) \<and>
      rollback_spec [2] q1 = Inr ([2], q2)) \<and>
   quiescent spawning_set \<and> ids_ok spawning_set \<and>
   (\<exists>p'. pa_rtpoll_run poll_build no_ext (quiet_cycle 0) spawning_set = Inr (0, p') \<and>
      EvBefore 0 (- 1) \<in> set (new_events spawning_set p') \<and> next_id p' = 3) \<and>
   (\<exists>q1 q2. before_loop no_ext (ids spawning_set) (spawning_set\<lparr>running := True\<rparr>)
               = Inr (Some 0, q1) \<and>
      rollback_spec [1, 2] q1 = Inr ([2], q2))"
proof -
  have q: "quiescent abc_set"
    by (simp add: abc_set_def quiescent_def idle_poll_set_def pa_rtpoll_new_def)
  have ok: "ids_ok abc_set"
    by (simp add: abc_set_def ids_ok_def ids_def idle_poll_set_def pa_rtpoll_new_def)
  from abc_eval obtain p' where
    run: "pa_rtpoll_run poll_build no_ext (quiet_cycle 0) abc_set = Inr (0, p')"
    and ev: "new_events abc_set p' = [EvBefore 2 0, EvBefore 1 (- 1), EvAfter 2 []]"
    and nx: "next_id p' = 3"
    by (cases "pa_rtpoll_run poll_build no_ext (quiet_cycle 0) abc_set") auto
  have n0: "next_id abc_set = 3" by (simp add: abc_set_def)
  have i0: "ids abc_set = [2, 1, 0]" by (simp add: abc_set_def ids_def)
  have veto: "EvBefore 1 (- 1) \<in> set (new_events abc_set p')" by (simp add: ev)
  have neg: "(- 1 :: int) < 0" by simp
  from veto_rolls_back [OF q ok run veto neg] obtain T1 T2 T3 q1 q2 where
    sp: "new_events abc_set p' = T1 @ [EvBefore 1 (- 1)] @ T2 @ map EvReclaim T3"
    and nr: "\<forall>y. EvReclaim y \<notin> set (T1 @ T2)"
    and bl: "before_loop no_ext (ids abc_set) (abc_set\<lparr>running := True\<rparr>) = Inr (Some 1, q1)"
    and rs: "rollback_spec
               (rev (takeWhile (\<lambda>y. y \<noteq> 1) (ids abc_set)) @ [next_id abc_set ..< next_id p']) q1
               = Inr (after_ids T2, q2)"
    and ex: "next_id p' = next_id abc_set \<and> (\<forall>y. EvSetAfterCall y \<notin> set (T1 @ T2)) \<and>
             (\<forall>y. EvFreeCall y \<notin> set T2) \<longrightarrow>
               after_ids T2
                 = rev (filter (\<lambda>y. has_after y abc_set \<and> EvFreeCall y \<notin> set T1)
                          (takeWhile (\<lambda>y. y \<noteq> 1) (ids abc_set)))"
    by blast
  from sp ev have "[EvBefore 2 0, EvBefore 1 (- 1), EvAfter 2 []]
                     = T1 @ [EvBefore 1 (- 1)] @ T2 @ map EvReclaim T3"
    by simp
  from three_events_split [OF this _ _ _ nr] have t: "T1 = [EvBefore 2 0]" "T2 = [EvAfter 2 []]" "T3 = []"
    by simp_all
  have pre: "next_id p' = next_id abc_set \<and> (\<forall>y. EvSetAfterCall y \<notin> set (T1 @ T2)) \<and>
             (\<forall>y. EvFreeCall y \<notin> set T2)"
    using t nx n0 by simp
  from ex pre have "after_ids T2
                 = rev (filter (\<lambda>y. has_after y abc_set \<and> EvFreeCall y \<notin> set T1)
                          (takeWhile (\<lambda>y. y \<noteq> 1) (ids abc_set)))"
    by (rule mp)
  then have fin: "after_ids [EvAfter 2 []]
        = rev (filter (\<lambda>y. has_after y abc_set \<and> EvFreeCall y \<notin> set [EvBefore 2 0])
                 (takeWhile (\<lambda>y. y \<noteq> 1) (ids abc_set)))"
    unfolding t .
  have ev': "new_events abc_set p'
               = [EvBefore 2 0] @ [EvBefore 1 (- 1)] @ [EvAfter 2 []] @ map EvReclaim []"
    using ev by simp
  have nn: "next_id p' = next_id abc_set" using nx n0 by simp
  from run ev' nn fin have A: "\<exists>p'. pa_rtpoll_run poll_build no_ext (quiet_cycle 0) abc_set = Inr (0, p') \<and>
      new_events abc_set p' = [EvBefore 2 0] @ [EvBefore 1 (- 1)] @ [EvAfter 2 []] @ map EvReclaim [] \<and>
      next_id p' = next_id abc_set \<and>
      after_ids [EvAfter 2 []]
        = rev (filter (\<lambda>y. has_after y abc_set \<and> EvFreeCall y \<notin> set [EvBefore 2 0])
                 (takeWhile (\<lambda>y. y \<noteq> 1) (ids abc_set)))"
    by blast
  from rs have "rollback_spec [2] q1 = Inr ([2], q2)"
    by (simp add: t i0 n0 nx)
  with bl have B: "\<exists>q1 q2. before_loop no_ext (ids abc_set) (abc_set\<lparr>running := True\<rparr>)
                             = Inr (Some 1, q1) \<and>
                    rollback_spec [2] q1 = Inr ([2], q2)"
    by blast
  \<comment> \<open>the poll set in which a before-hook creates an item\<close>
  have qs: "quiescent spawning_set"
    by (simp add: spawning_set_def quiescent_def idle_poll_set_def pa_rtpoll_new_def)
  have oks: "ids_ok spawning_set"
    by (simp add: spawning_set_def ids_ok_def ids_def idle_poll_set_def pa_rtpoll_new_def)
  from spawning_eval spawning_next obtain p'' where
    run2: "pa_rtpoll_run poll_build no_ext (quiet_cycle 0) spawning_set = Inr (0, p'')"
    and ev2: "new_events spawning_set p''
                = [EvSetAfterCall 2, EvBefore 1 0, EvBefore 0 (- 1), EvAfter 2 []]"
    and nx2: "next_id p'' = 3"
    by (cases "pa_rtpoll_run poll_build no_ext (quiet_cycle 0) spawning_set") auto
  have n2: "next_id spawning_set = 2" by (simp add: spawning_set_def)
  have i2: "ids spawning_set = [1, 0]" by (simp add: spawning_set_def ids_def)
  have veto2: "EvBefore 0 (- 1) \<in> set (new_events spawning_set p'')" by (simp add: ev2)
  from veto_rolls_back [OF qs oks run2 veto2 neg] obtain U2 r1 r2 where
    bl2: "before_loop no_ext (ids spawning_set) (spawning_set\<lparr>running := True\<rparr>)
            = Inr (Some 0, r1)"
    and rs2: "rollback_spec
               (rev (takeWhile (\<lambda>y. y \<noteq> 0) (ids spawning_set))
                @ [next_id spawning_set ..< next_id p'']) r1
               = Inr (after_ids U2, r2)"
    by blast
  from rs2 have rs2': "rollback_spec [1, 2] r1 = Inr (after_ids U2, r2)"
    by (simp add: i2 n2 nx2 upt_rec)
  from spawning_walk_eval bl2 have "map_sum id fst (rollback_spec [1, 2] r1) = Inr [2]"
    by auto
  with rs2' have "after_ids U2 = [2]" by simp
  with rs2' bl2 have D: "\<exists>q1 q2. before_loop no_ext (ids spawning_set) (spawning_set\<lparr>running := True\<rparr>)
               = Inr (Some 0, q1) \<and>
      rollback_spec [1, 2] q1 = Inr ([2], q2)"
    by (intro exI [of _ r1] exI [of _ r2]) simp
  from run2 veto2 nx2
  have C: "\<exists>p'. pa_rtpoll_run poll_build no_ext (quiet_cycle 0) spawning_set = Inr (0, p') \<and>
      EvBefore 0 (- 1) \<in> set (new_events spawning_set p') \<and> next_id p' = 3"
    by blast
  from q ok A B qs oks C D show ?thesis by (intro conjI)
qed

text \<open>
  C1 as stated (the after-hooks of exactly the previously visited items are called) does not
  hold: the rollback walks \<^verbatim>\<open>i->prev\<close> to the head of the list and calls the after-hook of the
  item that was created during the cycle, which the forward loop never visited.
\<close>

theorem rollback_reaches_new_item_counterexample:
  "2 \<notin> set (ids spawning_set) \<and>
   map_sum id (\<lambda>(r, p'). after_ids (new_events spawning_set p'))
     (pa_rtpoll_run poll_build no_ext (quiet_cycle 0) spawning_set) = Inr [2] \<and>
   map_sum id (\<lambda>(r, p'). after_ids (new_events spawning_set p'))
     (pa_rtpoll_run poll_build no_ext (quiet_cycle 0) spawning_set)
     \<noteq> Inr (rev (filter (\<lambda>y. has_after y spawning_set)
                    (takeWhile (\<lambda>y. y \<noteq> 0) (ids spawning_set))))"
proof -
  have a: "map_sum id (\<lambda>(r, p'). after_ids (new_events spawning_set p'))
             (pa_rtpoll_run poll_build no_ext (quiet_cycle 0) spawning_set) = Inr [2]"
    using spawning_eval
    by (cases "pa_rtpoll_run poll_build no_ext (quiet_cycle 0) spawning_set") auto
  have b: "ids spawning_set = [1, 0]" by (simp add: spawning_set_def ids_def)
  have c: "\<not> has_after 1 spawning_set"
    by (simp add: has_after_def hooks_view_def spawning_set_def)
  show ?thesis using a b c by simp
qed


end
